theory Spec2Isabelle
  imports Main "HOL-Library.Word"
begin

unbundle bit_operations_syntax

section \<open>Single-producer/single-consumer queues of \<^verbatim>\<open>spscq.h\<close>\<close>

text \<open>
  The header \<^verbatim>\<open>includes/util/spscq.h\<close> implements the Lamport queue (plain, cached and
  two-phase batched access) and the FastForward queue (basic and improved). Each C function
  is embedded as a HOL function from the queue before the call to the returned value and the
  queue after the call. The embedding is sequential: one call is one step, and
  \<^verbatim>\<open>ACCESS_ONCE\<close> and \<^verbatim>\<open>compiler_barrier\<close>, which only constrain the compiler, disappear.
  \<^verbatim>\<open>SMAP\<close> is the identity (no slot remapping by default). The \<^verbatim>\<open>printf\<close> calls of the
  error paths produce output only and are left out.

  \<^verbatim>\<open>unsigned int\<close> is \<open>32 word\<close>, \<^verbatim>\<open>uintptr_t\<close> is \<open>64 word\<close> (an LP64 target, where
  \<^verbatim>\<open>sizeof(uintptr_t)\<close> is 8). An \<^verbatim>\<open>int\<close> argument whose bits matter is a \<open>32 word\<close> read
  with \<open>sint\<close>; return codes and the flag \<^verbatim>\<open>improved\<close> are HOL integers. Expressions that C evaluates in \<^verbatim>\<open>size_t\<close>
  and then stores into an \<^verbatim>\<open>unsigned int\<close>, such as
  \<^verbatim>\<open>(write + (SPSCQ_CACHELINE_SIZE / sizeof(uintptr_t))) & q->qmask\<close>, are written in 32-bit
  arithmetic: truncation to the low 32 bits commutes with \<open>+\<close>, \<open>-\<close> and \<open>AND\<close>.

  The slot array is the flexible array member \<^verbatim>\<open>q[0]\<close>; its allocation belongs to the
  caller (\<^verbatim>\<open>blq_size\<close>, \<^verbatim>\<open>iffq_size\<close>). It is modelled as a store from slot index to slot
  value.
\<close>

subsection \<open>Constants\<close>

definition SPSCQ_CACHELINE_SIZE :: nat where
  "SPSCQ_CACHELINE_SIZE = 64"

definition sizeof_uintptr_t :: nat where
  "sizeof_uintptr_t = 8"

definition IFFQ_PROD_CACHE_ENTRIES :: nat where
  "IFFQ_PROD_CACHE_ENTRIES = 256"

text \<open>
  Modelled from the spec: the header uses \<^verbatim>\<open>EINVAL\<close> and \<^verbatim>\<open>ENOBUFS\<close> of \<^verbatim>\<open>errno.h\<close>, which
  is not part of the repository. The spec only says that a rejected initialisation is
  reported as a negative return and that a full queue is reported as a failure return; the
  Linux values are taken here.
\<close>

definition EINVAL :: int where
  "EINVAL = 22"

definition ENOBUFS :: int where
  "ENOBUFS = 105"

text \<open>
  \<^verbatim>\<open>is_power_of_two(int x)\<close> returns \<^verbatim>\<open>!x || !(x & (x - 1))\<close>; the result is only used as a
  condition and is a \<open>bool\<close> here. For \<^verbatim>\<open>INT_MIN\<close> the subtraction overflows in C; the
  model wraps around.
\<close>

definition is_power_of_two :: "32 word \<Rightarrow> bool" where
  "is_power_of_two x = (x = 0 \<or> x AND (x - 1) = 0)"

subsection \<open>Lamport queue\<close>

record Blq =
  write_priv :: "32 word"
  read_shadow :: "32 word"
  "write" :: "32 word"
  read_priv :: "32 word"
  write_shadow :: "32 word"
  read :: "32 word"
  qlen :: "32 word"
  qmask :: "32 word"
  q :: "32 word \<Rightarrow> 64 word"

definition blq_init :: "Blq \<Rightarrow> 32 word \<Rightarrow> int \<times> Blq" where
  "blq_init blq len =
     (if sint len < 2 \<or> \<not> is_power_of_two len then (- 1, blq)
      else (0, blq\<lparr>qlen := len, qmask := len - 1\<rparr>))"

definition lq_write :: "Blq \<Rightarrow> 64 word \<Rightarrow> int \<times> Blq" where
  "lq_write s m =
     (let w = write s;
          next = (w + 1) AND qmask s
      in if next = read s then (- 1, s)
         else (0, s\<lparr>Blq.q := (Blq.q s)(w := m), write := next\<rparr>))"

definition lq_read :: "Blq \<Rightarrow> 64 word \<times> Blq" where
  "lq_read s =
     (let r = read s
      in if r = write s then (0, s)
         else (Blq.q s r, s\<lparr>read := (r + 1) AND qmask s\<rparr>))"

definition llq_write :: "Blq \<Rightarrow> 64 word \<Rightarrow> int \<times> Blq" where
  "llq_write s m =
     (let w = write s;
          check = (w + word_of_nat (SPSCQ_CACHELINE_SIZE div sizeof_uintptr_t)) AND qmask s;
          s1 = (if check = read_shadow s then s\<lparr>read_shadow := read s\<rparr> else s)
      in if check = read_shadow s1 then (- 1, s1)
         else (0, s1\<lparr>Blq.q := (Blq.q s1)(w := m), write := (w + 1) AND qmask s1\<rparr>))"

definition llq_read :: "Blq \<Rightarrow> 64 word \<times> Blq" where
  "llq_read s =
     (let r = read_priv s;
          s1 = (if r = write_shadow s then s\<lparr>write_shadow := write s\<rparr> else s)
      in if r = write_shadow s \<and> r = write_shadow s1 then (0, s1)
         else (Blq.q s1 r,
               s1\<lparr>read_priv := (r + 1) AND qmask s1, read := (r + 1) AND qmask s1\<rparr>))"

definition blq_wspace :: "Blq \<Rightarrow> 32 word \<Rightarrow> 32 word \<times> Blq" where
  "blq_wspace blq needed =
     (let space = (read_shadow blq
                    - word_of_nat (SPSCQ_CACHELINE_SIZE div sizeof_uintptr_t)
                    - write_priv blq) AND qmask blq
      in if space \<ge> needed then (space, blq)
         else (let blq1 = blq\<lparr>read_shadow := read blq\<rparr>
               in ((read_shadow blq1
                     - word_of_nat (SPSCQ_CACHELINE_SIZE div sizeof_uintptr_t)
                     - write_priv blq1) AND qmask blq1, blq1)))"

definition blq_write_local :: "Blq \<Rightarrow> 64 word \<Rightarrow> Blq" where
  "blq_write_local blq m =
     blq\<lparr>Blq.q := (Blq.q blq)(write_priv blq AND qmask blq := m),
         write_priv := write_priv blq + 1\<rparr>"

definition blq_write_publish :: "Blq \<Rightarrow> Blq" where
  "blq_write_publish blq = blq\<lparr>write := write_priv blq\<rparr>"

definition blq_rspace :: "Blq \<Rightarrow> 32 word \<Rightarrow> 32 word \<times> Blq" where
  "blq_rspace blq needed =
     (let space = write_shadow blq - read_priv blq
      in if space \<ge> needed then (space, blq)
         else (let blq1 = blq\<lparr>write_shadow := write blq\<rparr>
               in (write_shadow blq1 - read_priv blq1, blq1)))"

definition blq_read_local :: "Blq \<Rightarrow> 64 word \<times> Blq" where
  "blq_read_local blq =
     (Blq.q blq (read_priv blq AND qmask blq), blq\<lparr>read_priv := read_priv blq + 1\<rparr>)"

definition blq_read_publish :: "Blq \<Rightarrow> Blq" where
  "blq_read_publish blq = blq\<lparr>read := read_priv blq\<rparr>"

subsection \<open>FastForward queue\<close>

text \<open>
  \<^verbatim>\<open>prod_cache\<close> is an array of \<^verbatim>\<open>IFFQ_PROD_CACHE_ENTRIES\<close> slots inside the struct. It is a
  store from index to value; an access at an index outside the array is undefined
  behaviour in C and is the result \<open>None\<close> of the two functions that index it.
\<close>

record Iffq =
  prod_cache :: "32 word \<Rightarrow> 64 word"
  entry_mask :: "32 word"
  line_entries :: "32 word"
  line_mask :: "32 word"
  prod_write :: "32 word"
  prod_check :: "32 word"
  prod_cache_write :: "32 word"
  cons_clear :: "32 word"
  cons_read :: "32 word"
  q :: "32 word \<Rightarrow> 64 word"

definition ffq_write :: "Iffq \<Rightarrow> 64 word \<Rightarrow> int \<times> Iffq" where
  "ffq_write ffq m =
     (let qslot = prod_write ffq AND entry_mask ffq
      in if Iffq.q ffq qslot \<noteq> 0 then (- 1, ffq)
         else (0, ffq\<lparr>Iffq.q := (Iffq.q ffq)(qslot := m), prod_write := prod_write ffq + 1\<rparr>))"

definition ffq_read :: "Iffq \<Rightarrow> 64 word \<times> Iffq" where
  "ffq_read ffq =
     (let qslot = cons_read ffq AND entry_mask ffq;
          m = Iffq.q ffq qslot
      in if m \<noteq> 0
         then (m, ffq\<lparr>Iffq.q := (Iffq.q ffq)(qslot := 0), cons_read := cons_read ffq + 1\<rparr>)
         else (m, ffq))"

text \<open>
  The loop of \<^verbatim>\<open>iffq_init\<close>:
  \<^verbatim>\<open>for (i = ffq->cons_clear; i != ffq->cons_read; i++) q[i] = 1\<close>.
\<close>

function iffq_init_fill :: "Iffq \<Rightarrow> 32 word \<Rightarrow> Iffq" where
  "iffq_init_fill ffq i =
     (if i \<noteq> cons_read ffq
      then iffq_init_fill (ffq\<lparr>Iffq.q := (Iffq.q ffq)(i := 1)\<rparr>) (i + 1)
      else ffq)"
  by pat_completeness auto
termination
proof (relation "measure (\<lambda>(ffq, i). unat (cons_read ffq - i))")
  show "wf (measure (\<lambda>(ffq, i). unat (cons_read ffq - i)))"
    by simp
next
  fix ffq :: Iffq and i :: "32 word"
  assume "i \<noteq> cons_read ffq"
  then have "cons_read ffq - i \<noteq> 0"
    by simp
  then have "unat (cons_read ffq - i - 1) < unat (cons_read ffq - i)"
    by (rule measure_unat)
  then have "unat (cons_read ffq - (i + 1)) < unat (cons_read ffq - i)"
    by (simp only: diff_diff_eq)
  then show "((ffq\<lparr>Iffq.q := (Iffq.q ffq)(i := 1)\<rparr>, i + 1), (ffq, i))
      \<in> measure (\<lambda>(ffq, i). unat (cons_read ffq - i))"
    by simp
qed

declare iffq_init_fill.simps [simp del]

definition iffq_init :: "Iffq \<Rightarrow> 32 word \<Rightarrow> 32 word \<Rightarrow> int \<Rightarrow> int \<times> Iffq" where
  "iffq_init ffq entries line_size improved =
     (if \<not> is_power_of_two entries \<or> \<not> is_power_of_two line_size \<or>
         (improved \<noteq> 0 \<and> unat entries * sizeof_uintptr_t \<le> unat (2 * line_size)) \<or>
         unat line_size < sizeof_uintptr_t
      then (- EINVAL, ffq)
      else (let entries_per_line = word_of_nat (unat line_size div sizeof_uintptr_t);
                ffq1 = ffq\<lparr>line_entries := entries_per_line,
                           line_mask := NOT (entries_per_line - 1),
                           entry_mask := entries - 1\<rparr>;
                ffq2 = ffq1\<lparr>cons_clear := 0,
                            cons_read := line_entries ffq1,
                            prod_write := line_entries ffq1,
                            prod_check := line_entries ffq1,
                            prod_cache_write := 0\<rparr>
            in (0, if improved \<noteq> 0 then iffq_init_fill ffq2 (cons_clear ffq2) else ffq2)))"

definition iffq_insert :: "Iffq \<Rightarrow> 64 word \<Rightarrow> int \<times> Iffq" where
  "iffq_insert ffq m =
     (if prod_write ffq = prod_check ffq \<and>
         Iffq.q ffq ((prod_check ffq + line_entries ffq) AND entry_mask ffq) \<noteq> 0
      then (- ENOBUFS, ffq)
      else (let ffq1 = (if prod_write ffq = prod_check ffq
                        then ffq\<lparr>prod_check := prod_check ffq + line_entries ffq\<rparr>
                        else ffq)
            in (0, ffq1\<lparr>Iffq.q := (Iffq.q ffq1)(prod_write ffq1 AND entry_mask ffq1 := m),
                         prod_write := prod_write ffq1 + 1\<rparr>)))"

definition iffq_wspace :: "Iffq \<Rightarrow> 32 word \<Rightarrow> 32 word \<times> Iffq" where
  "iffq_wspace ffq needed =
     (let space = prod_check ffq - prod_write ffq
      in if space \<ge> needed then (space, ffq)
         else (let next_check = prod_check ffq + line_entries ffq
               in if Iffq.q ffq (next_check AND entry_mask ffq) \<noteq> 0 then (space, ffq)
                  else (next_check - prod_write ffq, ffq\<lparr>prod_check := next_check\<rparr>)))"

definition iffq_insert_local :: "Iffq \<Rightarrow> 64 word \<Rightarrow> Iffq option" where
  "iffq_insert_local ffq m =
     (if unat (prod_cache_write ffq) < IFFQ_PROD_CACHE_ENTRIES
      then Some (ffq\<lparr>prod_cache := (prod_cache ffq)(prod_cache_write ffq := m),
                      prod_cache_write := prod_cache_write ffq + 1\<rparr>)
      else None)"

text \<open>
  The loop of \<^verbatim>\<open>iffq_insert_publish\<close>:
  \<^verbatim>\<open>for (i = 0; i < ffq->prod_cache_write; i++, ffq->prod_write++)\<close>.
\<close>

function iffq_insert_publish_loop :: "Iffq \<Rightarrow> 32 word \<Rightarrow> Iffq option" where
  "iffq_insert_publish_loop ffq i =
     (if i < prod_cache_write ffq
      then (if unat i < IFFQ_PROD_CACHE_ENTRIES
            then iffq_insert_publish_loop
                   (ffq\<lparr>Iffq.q := (Iffq.q ffq)(prod_write ffq AND entry_mask ffq := prod_cache ffq i),
                        prod_write := prod_write ffq + 1\<rparr>) (i + 1)
            else None)
      else Some ffq)"
  by pat_completeness auto
termination
proof (relation "measure (\<lambda>(ffq, i). unat (prod_cache_write ffq) - unat i)")
  show "wf (measure (\<lambda>(ffq, i). unat (prod_cache_write ffq) - unat i))"
    by simp
next
  fix ffq :: Iffq and i :: "32 word"
  assume lt: "i < prod_cache_write ffq"
  then have lt': "unat i < unat (prod_cache_write ffq)"
    by (simp add: word_less_nat_alt)
  have "unat (prod_cache_write ffq) < 2 ^ LENGTH(32)"
    by (rule unsigned_less)
  with lt' have "unat i + unat (1 :: 32 word) < 2 ^ LENGTH(32)"
    by simp
  then have "unat (i + 1) = unat i + 1"
    by (simp only: unat_add_lem [THEN iffD1] unsigned_1)
  with lt' show
    "((ffq\<lparr>Iffq.q := (Iffq.q ffq)(prod_write ffq AND entry_mask ffq := prod_cache ffq i),
            prod_write := prod_write ffq + 1\<rparr>, i + 1), (ffq, i))
      \<in> measure (\<lambda>(ffq, i). unat (prod_cache_write ffq) - unat i)"
    by simp
qed

declare iffq_insert_publish_loop.simps [simp del]

definition iffq_insert_publish :: "Iffq \<Rightarrow> Iffq option" where
  "iffq_insert_publish ffq =
     map_option (\<lambda>ffq1. ffq1\<lparr>prod_cache_write := 0\<rparr>) (iffq_insert_publish_loop ffq 0)"

definition iffq_extract :: "Iffq \<Rightarrow> 64 word \<times> Iffq" where
  "iffq_extract ffq =
     (let m = Iffq.q ffq (cons_read ffq AND entry_mask ffq)
      in if m \<noteq> 0 then (m, ffq\<lparr>cons_read := cons_read ffq + 1\<rparr>) else (m, ffq))"

text \<open>
  The loop of \<^verbatim>\<open>iffq_clear\<close>:
  \<^verbatim>\<open>for (; ffq->cons_clear != s; ffq->cons_clear++) q[cons_clear & entry_mask] = 0\<close>.
\<close>

function iffq_clear_loop :: "Iffq \<Rightarrow> 32 word \<Rightarrow> Iffq" where
  "iffq_clear_loop ffq s =
     (if cons_clear ffq \<noteq> s
      then iffq_clear_loop
             (ffq\<lparr>Iffq.q := (Iffq.q ffq)(cons_clear ffq AND entry_mask ffq := 0),
                  cons_clear := cons_clear ffq + 1\<rparr>) s
      else ffq)"
  by pat_completeness auto
termination
proof (relation "measure (\<lambda>(ffq, s). unat (s - cons_clear ffq))")
  show "wf (measure (\<lambda>(ffq, s). unat (s - cons_clear ffq)))"
    by simp
next
  fix ffq :: Iffq and s :: "32 word"
  assume "cons_clear ffq \<noteq> s"
  then have "s - cons_clear ffq \<noteq> 0"
    by simp
  then have "unat (s - cons_clear ffq - 1) < unat (s - cons_clear ffq)"
    by (rule measure_unat)
  then have "unat (s - (cons_clear ffq + 1)) < unat (s - cons_clear ffq)"
    by (simp only: diff_diff_eq)
  then show
    "((ffq\<lparr>Iffq.q := (Iffq.q ffq)(cons_clear ffq AND entry_mask ffq := 0),
            cons_clear := cons_clear ffq + 1\<rparr>, s), (ffq, s))
      \<in> measure (\<lambda>(ffq, s). unat (s - cons_clear ffq))"
    by simp
qed

declare iffq_clear_loop.simps [simp del]

definition iffq_clear :: "Iffq \<Rightarrow> Iffq" where
  "iffq_clear ffq =
     iffq_clear_loop ffq ((cons_read ffq - line_entries ffq) AND line_mask ffq)"

subsection \<open>Zero-filled queue memory\<close>

text \<open>
  \<^verbatim>\<open>blq_init\<close> writes \<^verbatim>\<open>qlen\<close> and \<^verbatim>\<open>qmask\<close> only, and \<^verbatim>\<open>iffq_init\<close> writes no slot beyond
  the first line: both are meant for memory that the caller has filled with zeros. These
  are the two structs in that state.
\<close>

definition zero_Blq :: Blq where
  "zero_Blq = \<lparr>write_priv = 0, read_shadow = 0, write = 0, read_priv = 0, write_shadow = 0,
                read = 0, qlen = 0, qmask = 0, q = (\<lambda>_. 0)\<rparr>"

definition zero_Iffq :: Iffq where
  "zero_Iffq = \<lparr>prod_cache = (\<lambda>_. 0), entry_mask = 0, line_entries = 0, line_mask = 0,
                 prod_write = 0, prod_check = 0, prod_cache_write = 0, cons_clear = 0,
                 cons_read = 0, q = (\<lambda>_. 0)\<rparr>"

subsection \<open>Configuration and occupancy of the Lamport queue\<close>

text \<open>
  \<open>blq_config\<close> holds of a queue whose \<^verbatim>\<open>qlen\<close> and \<^verbatim>\<open>qmask\<close> are the values that a
  successful \<^verbatim>\<open>blq_init\<close> stores. \<open>lq_items\<close> is the number of items between the read and
  the write cursor of the plain queue, the difference of the cursors modulo the capacity.
\<close>

definition blq_config :: "Blq \<Rightarrow> bool" where
  "blq_config s \<longleftrightarrow> 2 \<le> sint (qlen s) \<and> is_power_of_two (qlen s) \<and> qmask s = qlen s - 1"

definition lq_items :: "Blq \<Rightarrow> nat" where
  "lq_items s = (unat (write s) + unat (qlen s) - unat (read s)) mod unat (qlen s)"

subsection \<open>Sequences of calls on the plain Lamport queue\<close>

text \<open>
  \<open>lq_write_all\<close> is one \<^verbatim>\<open>lq_write\<close> call per value, in order, with the list of the
  returned codes; \<open>lq_read_n\<close> is \<open>n\<close> successive \<^verbatim>\<open>lq_read\<close> calls with the list of the
  returned values. \<open>lq_inv\<close> holds of a configured queue with both cursors inside the ring,
  and \<open>lq_list\<close> is the list of its unread items, oldest first.
\<close>

fun lq_write_all :: "Blq \<Rightarrow> 64 word list \<Rightarrow> int list \<times> Blq" where
  "lq_write_all s [] = ([], s)"
| "lq_write_all s (v # vs) =
     (let (r, s1) = lq_write s v;
          (rs, s2) = lq_write_all s1 vs
      in (r # rs, s2))"

fun lq_read_n :: "Blq \<Rightarrow> nat \<Rightarrow> 64 word list \<times> Blq" where
  "lq_read_n s 0 = ([], s)"
| "lq_read_n s (Suc n) =
     (let (m, s1) = lq_read s;
          (ms, s2) = lq_read_n s1 n
      in (m # ms, s2))"

definition lq_inv :: "Blq \<Rightarrow> bool" where
  "lq_inv s \<longleftrightarrow> blq_config s \<and> write s < qlen s \<and> read s < qlen s"

definition lq_list :: "Blq \<Rightarrow> 64 word list" where
  "lq_list s =
     map (\<lambda>i. Blq.q s (word_of_nat ((unat (read s) + i) mod unat (qlen s)))) [0..<lq_items s]"

subsection \<open>A batch of local writes\<close>

text \<open>\<open>blq_write_local_all\<close> is one \<^verbatim>\<open>blq_write_local\<close> call per value, in order.\<close>

fun blq_write_local_all :: "Blq \<Rightarrow> 64 word list \<Rightarrow> Blq" where
  "blq_write_local_all blq [] = blq"
| "blq_write_local_all blq (v # vs) = blq_write_local_all (blq_write_local blq v) vs"

subsection \<open>A batch of staged inserts\<close>

text \<open>
  \<open>iffq_insert_local_all\<close> is one \<^verbatim>\<open>iffq_insert_local\<close> call per value, in order; it is
  \<open>None\<close> as soon as one call indexes outside \<^verbatim>\<open>prod_cache\<close>.
\<close>

fun iffq_insert_local_all :: "Iffq \<Rightarrow> 64 word list \<Rightarrow> Iffq option" where
  "iffq_insert_local_all ffq [] = Some ffq"
| "iffq_insert_local_all ffq (v # vs) =
     (case iffq_insert_local ffq v of
        None \<Rightarrow> None
      | Some ffq1 \<Rightarrow> iffq_insert_local_all ffq1 vs)"

subsection \<open>The protocol of the two-phase calls\<close>

text \<open>
  \<open>blq_protocol s wb rb\<close> holds of the queues \<open>s\<close> that the two sides reach from a queue
  initialised over zero-filled memory when they follow the rule written above
  \<^verbatim>\<open>blq_write_local\<close> and \<^verbatim>\<open>blq_read_local\<close> in the header, "No boundary checks, to be called
  after \<^verbatim>\<open>blq_wspace()\<close>" (and \<^verbatim>\<open>blq_rspace()\<close>). \<open>wb\<close> is the number of local writes the
  producer may still make on the strength of its last \<^verbatim>\<open>blq_wspace\<close> result, \<open>rb\<close> the number
  of local reads the consumer may still make on the strength of its last \<^verbatim>\<open>blq_rspace\<close>
  result. Each call is one step; the steps of the two sides interleave freely.

  \<open>blq_window\<close> is the invariant of these queues: read as free-running counters, the
  cursors are ordered \<^verbatim>\<open>read_shadow\<close>, \<^verbatim>\<open>read\<close>, \<^verbatim>\<open>read_priv\<close>, \<^verbatim>\<open>write_shadow\<close>, \<^verbatim>\<open>write\<close>,
  \<^verbatim>\<open>write_priv\<close>, and the whole span plus the producer's remaining allowance fits into the
  capacity less one line of slots.
\<close>

inductive blq_protocol :: "Blq \<Rightarrow> nat \<Rightarrow> nat \<Rightarrow> bool" where
  init: "blq_init zero_Blq len = (0, s) \<Longrightarrow> blq_protocol s 0 0"
| wspace: "blq_protocol s wb rb \<Longrightarrow>
     blq_protocol (snd (blq_wspace s needed)) (unat (fst (blq_wspace s needed))) rb"
| write_local: "blq_protocol s (Suc wb) rb \<Longrightarrow> blq_protocol (blq_write_local s m) wb rb"
| write_publish: "blq_protocol s wb rb \<Longrightarrow> blq_protocol (blq_write_publish s) wb rb"
| rspace: "blq_protocol s wb rb \<Longrightarrow>
     blq_protocol (snd (blq_rspace s needed)) wb (unat (fst (blq_rspace s needed)))"
| read_local: "blq_protocol s wb (Suc rb) \<Longrightarrow> blq_protocol (snd (blq_read_local s)) wb rb"
| read_publish: "blq_protocol s wb rb \<Longrightarrow> blq_protocol (blq_read_publish s) wb rb"

definition blq_window :: "Blq \<Rightarrow> nat \<Rightarrow> nat \<Rightarrow> bool" where
  "blq_window s wb rb \<longleftrightarrow>
     (\<exists>n a b c d e.
        1 \<le> n \<and> n < 31 \<and> qlen s = 2 ^ n \<and> qmask s = mask n \<and>
        read s = read_shadow s + word_of_nat a \<and>
        read_priv s = read s + word_of_nat b \<and>
        write_shadow s = read_priv s + word_of_nat c \<and>
        write s = write_shadow s + word_of_nat d \<and>
        write_priv s = write s + word_of_nat e \<and>
        a + b + c + d + e + wb \<le> 2 ^ n - 8 \<and> rb \<le> c)"

subsection \<open>Sequences of inserts into the improved FastForward queue\<close>

text \<open>
  \<open>iffq_insert_all\<close> is one \<^verbatim>\<open>iffq_insert\<close> call per value, in order, with the list of the
  returned codes. \<open>iffq_filled a b f n\<close> describes the queue of \<open>2 ^ a\<close> entries and lines of
  \<open>2 ^ b\<close> slots after \<open>n\<close> successful inserts and no consumer activity: the write cursor
  stands at \<open>2 ^ b + n\<close>, the check cursor at the next line boundary, slot 0 still holds
  the non-sentinel value written by \<^verbatim>\<open>iffq_init\<close>, and the slots beyond the write cursor are
  empty.
\<close>

fun iffq_insert_all :: "Iffq \<Rightarrow> 64 word list \<Rightarrow> int list \<times> Iffq" where
  "iffq_insert_all ffq [] = ([], ffq)"
| "iffq_insert_all ffq (v # vs) =
     (let (r, ffq1) = iffq_insert ffq v;
          (rs, ffq2) = iffq_insert_all ffq1 vs
      in (r # rs, ffq2))"

definition iffq_filled :: "nat \<Rightarrow> nat \<Rightarrow> Iffq \<Rightarrow> nat \<Rightarrow> bool" where
  "iffq_filled a b f n \<longleftrightarrow>
     a < 32 \<and> b + 2 \<le> a \<and> entry_mask f = mask a \<and> line_entries f = 2 ^ b \<and>
     n + 2 * 2 ^ b \<le> 2 ^ a \<and>
     unat (prod_write f) = 2 ^ b + n \<and>
     (\<exists>d<2 ^ b. unat (prod_check f) = 2 ^ b + n + d \<and> 2 ^ b dvd n + d) \<and>
     Iffq.q f 0 \<noteq> 0 \<and>
     (\<forall>k. 2 ^ b + n \<le> unat k \<and> unat k < 2 ^ a \<longrightarrow> Iffq.q f k = 0)"

section \<open>Properties\<close>

subsection \<open>Powers of two and masks\<close>

lemma nat_and_pred_pow2:
  fixes x :: nat
  shows "0 < x \<Longrightarrow> x AND (x - 1) = 0 \<Longrightarrow> \<exists>n. x = 2 ^ n"
proof (induction x rule: less_induct)
  case (less x)
  show ?case
  proof (cases "even x")
    case True
    then obtain y where y: "x = 2 * y"
      by (elim evenE)
    with less.prems have ypos: "0 < y"
      by simp
    have "x - 1 = 2 * (y - 1) + 1"
      using y ypos by simp
    then have "x AND (x - 1) = 2 * (y AND (y - 1))"
      using y by (subst and_nat_rec) simp
    with less.prems have "y AND (y - 1) = 0"
      by simp
    moreover have "y < x"
      using y ypos by simp
    ultimately obtain n where "y = 2 ^ n"
      using less.IH ypos by blast
    then have "x = 2 ^ Suc n"
      using y by simp
    then show ?thesis
      by blast
  next
    case False
    then obtain y where y: "x = 2 * y + 1"
      by (elim oddE)
    then have "x AND (x - 1) = 2 * (y AND y)"
      by (subst and_nat_rec) simp
    with less.prems have "y = 0"
      by simp
    then have "x = 2 ^ 0"
      using y by simp
    then show ?thesis
      by blast
  qed
qed

lemma word_of_unat_pow2:
  fixes x :: "32 word"
  assumes "unat x = 2 ^ n"
  shows "n < 32 \<and> x = 2 ^ n"
proof -
  have "unat x < 2 ^ 32"
    using unsigned_less [of x] by simp
  then have "(2::nat) ^ n < 2 ^ 32"
    using assms by simp
  then have "n < 32"
    by (simp only: power_strict_increasing_iff)
  moreover have "x = 2 ^ n"
  proof -
    have "x = word_of_nat (unat x)"
      by simp
    also have "\<dots> = 2 ^ n"
      unfolding assms by simp
    finally show ?thesis .
  qed
  ultimately show ?thesis
    by simp
qed

lemma is_power_of_two_exp:
  fixes x :: "32 word"
  assumes "is_power_of_two x" and "x \<noteq> 0"
  shows "\<exists>n<32. x = 2 ^ n"
proof -
  have pos: "0 < unat x"
    using assms(2) by (simp add: unat_gt_0)
  have zero: "x AND (x - 1) = 0"
    using assms by (simp add: is_power_of_two_def)
  have "unat (x AND (x - 1)) = unat x AND (unat x - 1)"
    using assms(2) by (simp add: unsigned_and_eq unat_minus_one)
  then have "unat x AND (unat x - 1) = 0"
    using zero by simp
  then obtain n where "unat x = 2 ^ n"
    using nat_and_pred_pow2 pos by blast
  then show ?thesis
    using word_of_unat_pow2 by blast
qed

lemma exp_is_power_of_two: "is_power_of_two (2 ^ n)"
proof -
  have "(2 ^ n :: 32 word) AND mask n = 0"
    by (rule bit_eqI) (auto simp: bit_simps)
  then show ?thesis
    by (simp add: is_power_of_two_def mask_eq_decr_exp)
qed

lemma is_power_of_two_iff: "is_power_of_two x \<longleftrightarrow> x = 0 \<or> (\<exists>n<32. x = 2 ^ n)"
proof
  assume "is_power_of_two x"
  then show "x = 0 \<or> (\<exists>n<32. x = 2 ^ n)"
    using is_power_of_two_exp by blast
next
  assume "x = 0 \<or> (\<exists>n<32. x = 2 ^ n)"
  then show "is_power_of_two x"
  proof
    assume "x = 0"
    then show ?thesis
      by (simp add: is_power_of_two_def)
  next
    assume "\<exists>n<32. x = 2 ^ n"
    then show ?thesis
      using exp_is_power_of_two by blast
  qed
qed

lemma unat_exp32:
  assumes "n < 32"
  shows "unat (2 ^ n :: 32 word) = 2 ^ n"
proof -
  have "(2::nat) ^ n < 2 ^ 32"
    using assms by (intro power_strict_increasing) simp_all
  then have lt: "(2::nat) ^ n < 2 ^ LENGTH(32)"
    by simp
  have "unat (2 ^ n :: 32 word) = unat (word_of_nat (2 ^ n) :: 32 word)"
    by simp
  also have "\<dots> = 2 ^ n mod 2 ^ LENGTH(32)"
    by (simp only: unat_of_nat)
  also have "\<dots> = 2 ^ n"
    using lt by (rule mod_less)
  finally show ?thesis .
qed

lemma unat_and_mask: "unat ((x :: 32 word) AND mask n) = unat x mod 2 ^ n"
proof -
  have "unat (x AND mask n) = unat (take_bit n x)"
    by (simp only: take_bit_eq_mask)
  also have "\<dots> = take_bit n (unat x)"
    by (rule unsigned_take_bit_eq)
  also have "\<dots> = unat x mod 2 ^ n"
    by (rule take_bit_eq_mod)
  finally show ?thesis .
qed

lemma unat_succ_and_mask:
  "n < 32 \<Longrightarrow> unat (((x :: 32 word) + 1) AND mask n) = (unat x + 1) mod 2 ^ n"
proof -
  assume n: "n < 32"
  have dvd: "(2::nat) ^ n dvd 2 ^ 32"
    by (rule le_imp_power_dvd) (use n in simp)
  have "unat ((x + 1) AND mask n) = ((unat x + 1) mod 2 ^ 32) mod 2 ^ n"
    by (simp add: unat_and_mask unat_word_ariths)
  also have "\<dots> = (unat x + 1) mod 2 ^ n"
    using dvd by (rule mod_mod_cancel)
  finally show ?thesis .
qed


subsection \<open>Arithmetic in \<^verbatim>\<open>size_t\<close>\<close>

text \<open>
  The header adds and subtracts \<^verbatim>\<open>SPSCQ_CACHELINE_SIZE / sizeof(uintptr_t)\<close>, a \<^verbatim>\<open>size_t\<close>,
  to and from \<^verbatim>\<open>unsigned int\<close> cursors, masks the 64-bit result with the zero-extended
  \<^verbatim>\<open>qmask\<close> and stores it into an \<^verbatim>\<open>unsigned int\<close>. The stored value is the one computed in
  32-bit arithmetic, as the definitions above have it.
\<close>

lemma woi_mod64: "(word_of_int (k mod 2 ^ 64) :: 32 word) = word_of_int k"
proof -
  have "(2::int) ^ 32 dvd 2 ^ 64"
    by (rule le_imp_power_dvd) simp
  then have "k mod 2 ^ 64 mod 2 ^ 32 = k mod 2 ^ 32"
    by (rule mod_mod_cancel)
  then have "take_bit 32 (k mod 2 ^ 64) = take_bit 32 k"
    by (simp only: take_bit_eq_mod)
  then show ?thesis
    unfolding word_of_int_eq_iff by simp
qed

lemma ucast_add_down: "(ucast (a + b :: 64 word) :: 32 word) = ucast a + ucast b"
proof -
  have "(ucast (a + b) :: 32 word) = word_of_int (uint (a + b))"
    by (rule ucast_eq)
  also have "uint (a + b) = (uint a + uint b) mod 2 ^ 64"
    using uint_word_ariths(1) [of a b] by simp
  also have "(word_of_int ((uint a + uint b) mod 2 ^ 64) :: 32 word) = word_of_int (uint a + uint b)"
    by (rule woi_mod64)
  also have "\<dots> = word_of_int (uint a) + word_of_int (uint b)"
    by (rule wi_hom_add [symmetric])
  also have "\<dots> = ucast a + ucast b"
    by (simp only: ucast_eq)
  finally show ?thesis .
qed

lemma ucast_sub_down: "(ucast (a - b :: 64 word) :: 32 word) = ucast a - ucast b"
proof -
  have "(ucast (a - b) :: 32 word) = word_of_int (uint (a - b))"
    by (rule ucast_eq)
  also have "uint (a - b) = (uint a - uint b) mod 2 ^ 64"
    using uint_word_ariths(2) [of a b] by simp
  also have "(word_of_int ((uint a - uint b) mod 2 ^ 64) :: 32 word) = word_of_int (uint a - uint b)"
    by (rule woi_mod64)
  also have "\<dots> = word_of_int (uint a) - word_of_int (uint b)"
    by (rule wi_hom_sub [symmetric])
  also have "\<dots> = ucast a - ucast b"
    by (simp only: ucast_eq)
  finally show ?thesis .
qed

lemma ucast_and_down: "(ucast (a AND b :: 64 word) :: 32 word) = ucast a AND ucast b"
  by (rule bit_eqI) (simp add: bit_simps)

lemma ucast_up_down: "(ucast (ucast (w :: 32 word) :: 64 word) :: 32 word) = w"
  by (rule bit_eqI) (simp add: bit_simps)

lemma size_t_add_and_mask:
  fixes w m :: "32 word" and k :: "64 word"
  shows "(ucast ((ucast w + k) AND ucast m) :: 32 word) = (w + ucast k) AND m"
  by (simp only: ucast_and_down ucast_add_down ucast_up_down)

lemma size_t_sub_and_mask:
  fixes rs wp m :: "32 word" and k :: "64 word"
  shows "(ucast ((ucast rs - k - ucast wp) AND ucast m) :: 32 word) = (rs - ucast k - wp) AND m"
  by (simp only: ucast_and_down ucast_sub_down ucast_up_down)

subsection \<open>Return values of the FastForward producer calls\<close>

lemma ffq_write_zero_free:
  assumes "Iffq.q ffq (prod_write ffq AND entry_mask ffq) = 0"
  shows "ffq_write ffq 0 = (0, ffq\<lparr>prod_write := prod_write ffq + 1\<rparr>)"
proof -
  have "(Iffq.q ffq)(prod_write ffq AND entry_mask ffq := 0) = Iffq.q ffq"
    using assms by (metis fun_upd_triv)
  then show ?thesis
    using assms by (simp add: ffq_write_def Let_def)
qed

lemma ffq_write_ret: "fst (ffq_write ffq m) = (if Iffq.q ffq (prod_write ffq AND entry_mask ffq) = 0 then 0 else - 1)"
  by (simp add: ffq_write_def Let_def)

lemma iffq_insert_ret:
  "fst (iffq_insert ffq m) =
     (if prod_write ffq = prod_check ffq \<and>
         Iffq.q ffq ((prod_check ffq + line_entries ffq) AND entry_mask ffq) \<noteq> 0
      then - ENOBUFS else 0)"
  by (simp add: iffq_insert_def Let_def)

lemma iffq_insert_ok:
  assumes "fst (iffq_insert ffq m) = 0"
  shows "prod_write (snd (iffq_insert ffq m)) = prod_write ffq + 1"
    and "Iffq.q (snd (iffq_insert ffq m)) (prod_write ffq AND entry_mask ffq) = m"
  using assms by (simp_all add: iffq_insert_def Let_def ENOBUFS_def split: if_splits)

lemma succ_mask_neq:
  fixes x :: "32 word"
  assumes "1 \<le> n" and "n < 32" and "x \<le> mask n"
  shows "(x + 1) AND mask n \<noteq> x"
proof
  assume eq: "(x + 1) AND mask n = x"
  have two: "(2::nat) \<le> 2 ^ n"
    using assms(1) by (metis One_nat_def power_increasing power_one_right one_le_numeral)
  have "unat (mask n :: 32 word) = 2 ^ n - 1"
    using assms(2) by (simp add: mask_eq_decr_exp unat_minus_one unat_exp32)
  then have lt: "unat x < 2 ^ n"
    using assms(3) two by (simp add: word_le_nat_alt)
  have "(unat x + 1) mod 2 ^ n = unat x"
    using eq unat_succ_and_mask [OF assms(2), of x] by simp
  then show False
    using lt two by (cases "unat x + 1 < 2 ^ n") (auto simp: mod_if)
qed

lemma ring_items_if:
  fixes w r N :: nat
  assumes "w < N" and "r < N"
  shows "(w + N - r) mod N = (if r \<le> w then w - r else w + N - r)"
proof (cases "r \<le> w")
  case True
  then have "w + N - r = (w - r) + N"
    by simp
  then have "(w + N - r) mod N = (w - r) mod N"
    by simp
  also have "\<dots> = w - r"
    using assms by simp
  finally show ?thesis
    using True by simp
next
  case False
  then have "w + N - r < N"
    using assms by simp
  then show ?thesis
    using False by simp
qed

lemma ring_full_iff:
  fixes w r N :: nat
  assumes "w < N" and "r < N"
  shows "(w + 1) mod N = r \<longleftrightarrow> (w + N - r) mod N = N - 1"
proof (cases "w + 1 < N")
  case True
  then show ?thesis
    using assms by (auto simp: ring_items_if)
next
  case False
  then have "w + 1 = N"
    using assms by simp
  then show ?thesis
    using assms by (auto simp: ring_items_if)
qed

lemma ring_empty_iff:
  fixes w r N :: nat
  assumes "w < N" and "r < N"
  shows "r = w \<longleftrightarrow> (w + N - r) mod N = 0"
  using assms by (auto simp: ring_items_if)

subsection \<open>Single calls on the Lamport queue\<close>

lemma blq_init_config:
  assumes "blq_init b len = (0, s)"
  shows "blq_config s"
  using assms by (auto simp: blq_init_def blq_config_def split: if_splits)

lemma blq_config_exp:
  assumes "blq_config s"
  shows "\<exists>n. 1 \<le> n \<and> n < 31 \<and> qlen s = 2 ^ n \<and> qmask s = mask n"
proof -
  from assms have ge: "2 \<le> sint (qlen s)" and p: "is_power_of_two (qlen s)"
    and m: "qmask s = qlen s - 1"
    by (simp_all add: blq_config_def)
  from ge have "qlen s \<noteq> 0"
    by auto
  with p obtain n where n: "n < 32" "qlen s = 2 ^ n"
    using is_power_of_two_exp by blast
  have "n \<noteq> 0"
  proof
    assume "n = 0"
    with n have "qlen s = 1"
      by simp
    with ge show False
      by simp
  qed
  moreover have "n \<noteq> 31"
  proof
    assume "n = 31"
    with n have "qlen s = 2 ^ 31"
      by simp
    with ge show False
      by simp
  qed
  ultimately have "1 \<le> n" "n < 31"
    using n by simp_all
  moreover have "qmask s = mask n"
    using m n by (simp add: mask_eq_decr_exp)
  ultimately show ?thesis
    using n by blast
qed

lemma blq_init_reject: "fst (blq_init blq len) < 0 \<Longrightarrow> snd (blq_init blq len) = blq"
  by (cases "sint len < 2 \<or> \<not> is_power_of_two len") (simp_all add: blq_init_def)

lemma lq_write_ret: "fst (lq_write s m) = (if (write s + 1) AND qmask s = read s then - 1 else 0)"
  by (simp add: lq_write_def Let_def)

lemma lq_write_full: "(write s + 1) AND qmask s = read s \<Longrightarrow> lq_write s m = (- 1, s)"
  by (simp add: lq_write_def Let_def)

lemma lq_write_ok:
  "(write s + 1) AND qmask s \<noteq> read s \<Longrightarrow>
   lq_write s m = (0, s\<lparr>Blq.q := (Blq.q s)(write s := m), write := (write s + 1) AND qmask s\<rparr>)"
  by (simp add: lq_write_def Let_def)

lemma lq_write_fail: "fst (lq_write s m) = - 1 \<Longrightarrow> snd (lq_write s m) = s"
  by (simp add: lq_write_def Let_def split: if_splits)

lemma lq_read_empty: "read s = write s \<Longrightarrow> lq_read s = (0, s)"
  by (simp add: lq_read_def Let_def)

lemma lq_read_ok:
  "read s \<noteq> write s \<Longrightarrow>
   lq_read s = (Blq.q s (read s), s\<lparr>read := (read s + 1) AND qmask s\<rparr>)"
  by (simp add: lq_read_def Let_def)

lemma lq_read_zero_cases:
  assumes "fst (lq_read s) = 0"
  shows "(read s = write s \<and> snd (lq_read s) = s) \<or>
         (read s \<noteq> write s \<and> Blq.q s (read s) = 0 \<and>
          snd (lq_read s) = s\<lparr>read := (read s + 1) AND qmask s\<rparr>)"
  using assms by (cases "read s = write s") (simp_all add: lq_read_empty lq_read_ok)

lemma llq_write_ret:
  "fst (llq_write s m) =
     (if (write s + 8) AND qmask s = read_shadow s \<and> (write s + 8) AND qmask s = read s
      then - 1 else 0)"
  by (simp add: llq_write_def Let_def SPSCQ_CACHELINE_SIZE_def sizeof_uintptr_t_def)

lemma llq_write_fail:
  assumes "fst (llq_write s m) = - 1"
  shows "snd (llq_write s m) = s \<and> read_shadow s = read s"
proof -
  define check where
    "check = (write s + word_of_nat (SPSCQ_CACHELINE_SIZE div sizeof_uintptr_t)) AND qmask s"
  have a: "check = read_shadow s \<and> check = read s"
    using assms unfolding check_def by (simp add: llq_write_def Let_def split: if_splits)
  then have rs: "read_shadow s = read s"
    by auto
  have same: "s\<lparr>read_shadow := read s\<rparr> = s"
    unfolding rs [symmetric] by simp
  have "snd (llq_write s m) = s\<lparr>read_shadow := read s\<rparr>"
    using assms by (simp add: llq_write_def Let_def split: if_splits)
  with same rs show ?thesis
    by (simp only: simp_thms)
qed

lemma llq_read_empty:
  assumes "read_priv s = write_shadow s" and "read_priv s = write s"
  shows "llq_read s = (0, s)"
proof -
  have same: "s\<lparr>write_shadow := write s\<rparr> = s"
    using assms by simp
  have "llq_read s = (0, s\<lparr>write_shadow := write s\<rparr>)"
    using assms by (simp add: llq_read_def Let_def)
  with same show ?thesis
    by simp
qed

lemma llq_read_zero_cases:
  assumes "fst (llq_read s) = 0"
  shows "(read_priv s = write_shadow s \<and> read_priv s = write s \<and> snd (llq_read s) = s) \<or>
         (\<not> (read_priv s = write_shadow s \<and> read_priv s = write s) \<and>
          Blq.q s (read_priv s) = 0 \<and>
          read (snd (llq_read s)) = (read_priv s + 1) AND qmask s)"
proof (cases "read_priv s = write_shadow s \<and> read_priv s = write s")
  case True
  then have "llq_read s = (0, s)"
    using llq_read_empty by blast
  then have "snd (llq_read s) = s"
    by simp
  with True show ?thesis
    by blast
next
  case False
  then have "fst (llq_read s) = Blq.q s (read_priv s)"
    and "read (snd (llq_read s)) = (read_priv s + 1) AND qmask s"
    by (auto simp add: llq_read_def Let_def)
  with assms False show ?thesis
    by simp
qed

subsection \<open>Single calls on the FastForward queue\<close>

lemma ffq_write_full: "fst (ffq_write ffq m) = - 1 \<Longrightarrow> snd (ffq_write ffq m) = ffq"
  by (simp add: ffq_write_def Let_def split: if_splits)

lemma iffq_insert_full: "fst (iffq_insert ffq m) = - ENOBUFS \<Longrightarrow> snd (iffq_insert ffq m) = ffq"
  by (simp add: iffq_insert_def Let_def ENOBUFS_def split: if_splits)

lemma ffq_read_empty: "fst (ffq_read ffq) = 0 \<Longrightarrow> snd (ffq_read ffq) = ffq"
  by (simp add: ffq_read_def Let_def split: if_splits)

lemma iffq_extract_empty: "fst (iffq_extract ffq) = 0 \<Longrightarrow> snd (iffq_extract ffq) = ffq"
  by (simp add: iffq_extract_def Let_def split: if_splits)

lemma iffq_init_invalid:
  assumes "\<not> is_power_of_two entries \<or> \<not> is_power_of_two line_size \<or>
           (improved \<noteq> 0 \<and> unat entries * sizeof_uintptr_t \<le> unat (2 * line_size)) \<or>
           unat line_size < sizeof_uintptr_t"
  shows "iffq_init ffq entries line_size improved = (- EINVAL, ffq)"
  unfolding iffq_init_def using assms by (rule if_P)

lemma iffq_init_valid:
  assumes "\<not> (\<not> is_power_of_two entries \<or> \<not> is_power_of_two line_size \<or>
           (improved \<noteq> 0 \<and> unat entries * sizeof_uintptr_t \<le> unat (2 * line_size)) \<or>
           unat line_size < sizeof_uintptr_t)"
  shows "fst (iffq_init ffq entries line_size improved) = 0"
proof -
  have "iffq_init ffq entries line_size improved =
     (let entries_per_line = word_of_nat (unat line_size div sizeof_uintptr_t);
                ffq1 = ffq\<lparr>line_entries := entries_per_line,
                           line_mask := NOT (entries_per_line - 1),
                           entry_mask := entries - 1\<rparr>;
                ffq2 = ffq1\<lparr>cons_clear := 0,
                            cons_read := line_entries ffq1,
                            prod_write := line_entries ffq1,
                            prod_check := line_entries ffq1,
                            prod_cache_write := 0\<rparr>
            in (0, if improved \<noteq> 0 then iffq_init_fill ffq2 (cons_clear ffq2) else ffq2))"
    unfolding iffq_init_def using assms by (rule if_not_P)
  then show ?thesis
    by (simp add: Let_def)
qed

lemma iffq_init_reject:
  assumes "fst (iffq_init ffq entries line_size improved) < 0"
  shows "snd (iffq_init ffq entries line_size improved) = ffq"
proof (cases "\<not> is_power_of_two entries \<or> \<not> is_power_of_two line_size \<or>
         (improved \<noteq> 0 \<and> unat entries * sizeof_uintptr_t \<le> unat (2 * line_size)) \<or>
         unat line_size < sizeof_uintptr_t")
  case True
  then show ?thesis
    by (simp only: iffq_init_invalid snd_conv)
next
  case False
  then have "fst (iffq_init ffq entries line_size improved) = 0"
    by (rule iffq_init_valid)
  with assms show ?thesis
    by simp
qed

subsection \<open>The plain Lamport queue as a list\<close>

lemma lq_inv_exp:
  assumes "lq_inv s"
  shows "\<exists>n. 1 \<le> n \<and> n < 31 \<and> qmask s = mask n \<and> unat (qlen s) = 2 ^ n \<and>
             unat (write s) < 2 ^ n \<and> unat (read s) < 2 ^ n"
proof -
  from assms have c: "blq_config s" and w: "write s < qlen s" and r: "read s < qlen s"
    by (simp_all add: lq_inv_def)
  from c obtain n where n: "1 \<le> n" "n < 31" "qlen s = 2 ^ n" "qmask s = mask n"
    using blq_config_exp by blast
  have N: "unat (qlen s) = 2 ^ n"
    using n(2,3) by (simp add: unat_exp32)
  with w r have "unat (write s) < 2 ^ n" "unat (read s) < 2 ^ n"
    by (simp_all add: word_less_nat_alt)
  with n N show ?thesis
    by blast
qed

lemma of_nat_lt_qlen:
  fixes x :: "32 word"
  assumes "k < unat x"
  shows "unat (word_of_nat k :: 32 word) = k" and "(word_of_nat k :: 32 word) < x"
proof -
  show u: "unat (word_of_nat k :: 32 word) = k"
    by (rule le_unat_uoi [of k x]) (use assms in simp)
  show "(word_of_nat k :: 32 word) < x"
    using assms u by (simp add: word_less_nat_alt)
qed

lemma ring_step_items:
  fixes w r N :: nat
  assumes "w < N" and "r < N" and "(w + N - r) mod N < N - 1"
  shows "((w + 1) mod N + N - r) mod N = (w + N - r) mod N + 1"
proof -
  define w' where "w' = (w + 1) mod N"
  define k where "k = (w + N - r) mod N"
  define k' where "k' = (w' + N - r) mod N"
  have lt: "w' < N"
    using assms(1) by (simp add: w'_def)
  have a: "k' = (if r \<le> w' then w' - r else w' + N - r)"
    unfolding k'_def using lt assms(2) by (rule ring_items_if)
  have b: "k = (if r \<le> w then w - r else w + N - r)"
    unfolding k_def using assms(1,2) by (rule ring_items_if)
  have c: "k < N - 1"
    using assms(3) by (simp add: k_def)
  have d: "w' = (if w + 1 < N then w + 1 else 0)"
    using assms(1) by (auto simp: w'_def not_less le_Suc_eq)
  have "k' = k + 1"
    using a b c d assms(1,2) by (auto split: if_splits)
  then show ?thesis
    by (simp add: k_def k'_def w'_def)
qed

lemma ring_step_read:
  fixes w r N :: nat
  assumes "w < N" and "r < N" and "0 < (w + N - r) mod N"
  shows "(w + N - (r + 1) mod N) mod N = (w + N - r) mod N - 1"
proof -
  define r' where "r' = (r + 1) mod N"
  define k where "k = (w + N - r) mod N"
  define k' where "k' = (w + N - r') mod N"
  have lt: "r' < N"
    using assms(1) by (simp add: r'_def)
  have a: "k' = (if r' \<le> w then w - r' else w + N - r')"
    unfolding k'_def using assms(1) lt by (rule ring_items_if)
  have b: "k = (if r \<le> w then w - r else w + N - r)"
    unfolding k_def using assms(1,2) by (rule ring_items_if)
  have c: "0 < k"
    using assms(3) by (simp add: k_def)
  have d: "r' = (if r + 1 < N then r + 1 else 0)"
    using assms(2) by (auto simp: r'_def not_less le_Suc_eq)
  have "k' = k - 1"
    using a b c d assms(1,2) by (auto split: if_splits)
  then show ?thesis
    by (simp add: k_def k'_def r'_def)
qed

lemma ring_write_index:
  fixes w r N :: nat
  assumes "w < N" and "r < N"
  shows "(r + (w + N - r) mod N) mod N = w"
  using assms by (auto simp: ring_items_if)

lemma ring_index_inj:
  fixes r N i k :: nat
  assumes "i < k" and "k < N"
  shows "(r + i) mod N \<noteq> (r + k) mod N"
proof
  assume "(r + i) mod N = (r + k) mod N"
  then have "N dvd (r + k) - (r + i)"
    using assms by (metis mod_eq_dvd_iff_nat add_le_cancel_left less_imp_le)
  then have "N dvd k - i"
    by simp
  moreover have "0 < k - i" "k - i < N"
    using assms by simp_all
  ultimately show False
    by (meson dvd_imp_le not_less)
qed

lemma lq_write_list:
  assumes inv: "lq_inv s" and room: "lq_items s < unat (qlen s) - 1"
  shows "fst (lq_write s v) = 0 \<and> lq_inv (snd (lq_write s v)) \<and>
         lq_items (snd (lq_write s v)) = lq_items s + 1 \<and>
         lq_list (snd (lq_write s v)) = lq_list s @ [v]"
proof -
  from inv obtain n where n: "1 \<le> n" "n < 31" "qmask s = mask n"
    and N: "unat (qlen s) = 2 ^ n"
    and w: "unat (write s) < 2 ^ n" and r: "unat (read s) < 2 ^ n"
    using lq_inv_exp by blast
  define s' where
    "s' = s\<lparr>Blq.q := (Blq.q s)(write s := v), write := (write s + 1) AND qmask s\<rparr>"
  have n32: "n < 32"
    using n(2) by simp
  have wnext: "unat ((write s + 1) AND qmask s) = (unat (write s) + 1) mod 2 ^ n"
    using n(3) n32 by (simp add: unat_succ_and_mask)
  have k: "lq_items s = (unat (write s) + 2 ^ n - unat (read s)) mod 2 ^ n"
    by (simp add: lq_items_def N)
  have "(unat (write s) + 1) mod 2 ^ n \<noteq> unat (read s)"
    using ring_full_iff [OF w r] room k N by simp
  then have notfull: "(write s + 1) AND qmask s \<noteq> read s"
    using wnext by (metis)
  then have step: "lq_write s v = (0, s')"
    unfolding s'_def by (rule lq_write_ok)
  have fields: "qlen s' = qlen s" "qmask s' = qmask s" "read s' = read s"
    "write s' = (write s + 1) AND qmask s" "Blq.q s' = (Blq.q s)(write s := v)"
    by (simp_all add: s'_def)
  have w': "unat (write s') = (unat (write s) + 1) mod 2 ^ n"
    using wnext fields by simp
  have inv': "lq_inv s'"
  proof -
    have "blq_config s'"
      using inv fields by (simp add: lq_inv_def blq_config_def)
    moreover have "write s' < qlen s'"
      using w' N fields by (simp add: word_less_nat_alt)
    moreover have "read s' < qlen s'"
      using inv fields by (simp add: lq_inv_def)
    ultimately show ?thesis
      by (simp add: lq_inv_def)
  qed
  have k': "lq_items s' = lq_items s + 1"
  proof -
    have "lq_items s' = ((unat (write s) + 1) mod 2 ^ n + 2 ^ n - unat (read s)) mod 2 ^ n"
      using w' fields N by (simp add: lq_items_def)
    also have "\<dots> = (unat (write s) + 2 ^ n - unat (read s)) mod 2 ^ n + 1"
      using w r room k N by (intro ring_step_items) simp_all
    finally show ?thesis
      using k by simp
  qed
  have widx: "(unat (read s) + lq_items s) mod 2 ^ n = unat (write s)"
    unfolding k using w r by (rule ring_write_index)
  have klt: "lq_items s < 2 ^ n"
    using room N by simp
  have old: "Blq.q s' (word_of_nat ((unat (read s) + i) mod 2 ^ n)) =
             Blq.q s (word_of_nat ((unat (read s) + i) mod 2 ^ n))" if "i < lq_items s" for i
  proof -
    have "(unat (read s) + i) mod 2 ^ n \<noteq> unat (write s)"
      using ring_index_inj [OF that klt, of "unat (read s)"] widx by simp
    moreover have "(unat (read s) + i) mod 2 ^ n < unat (qlen s)"
      using N by simp
    then have "unat (word_of_nat ((unat (read s) + i) mod 2 ^ n) :: 32 word) =
        (unat (read s) + i) mod 2 ^ n"
      by (rule of_nat_lt_qlen)
    ultimately have "(word_of_nat ((unat (read s) + i) mod 2 ^ n) :: 32 word) \<noteq> write s"
      by (metis)
    then show ?thesis
      using fields by simp
  qed
  have new: "Blq.q s' (word_of_nat ((unat (read s) + lq_items s) mod 2 ^ n)) = v"
    using widx fields by simp
  have "lq_list s' =
      map (\<lambda>i. Blq.q s' (word_of_nat ((unat (read s) + i) mod 2 ^ n))) [0..<lq_items s + 1]"
    using k' fields N by (simp add: lq_list_def)
  also have "\<dots> =
      map (\<lambda>i. Blq.q s' (word_of_nat ((unat (read s) + i) mod 2 ^ n))) [0..<lq_items s] @ [v]"
    using new by simp
  also have "map (\<lambda>i. Blq.q s' (word_of_nat ((unat (read s) + i) mod 2 ^ n))) [0..<lq_items s] =
      map (\<lambda>i. Blq.q s (word_of_nat ((unat (read s) + i) mod 2 ^ n))) [0..<lq_items s]"
    using old by (intro map_cong) simp_all
  also have "\<dots> = lq_list s"
    using N by (simp add: lq_list_def)
  finally have "lq_list s' = lq_list s @ [v]" .
  with step inv' k' show ?thesis
    by simp
qed

lemma lq_read_list:
  assumes inv: "lq_inv s" and some: "0 < lq_items s"
  shows "fst (lq_read s) = hd (lq_list s) \<and> lq_inv (snd (lq_read s)) \<and>
         lq_items (snd (lq_read s)) = lq_items s - 1 \<and>
         lq_list (snd (lq_read s)) = tl (lq_list s)"
proof -
  from inv obtain n where n: "1 \<le> n" "n < 31" "qmask s = mask n"
    and N: "unat (qlen s) = 2 ^ n"
    and w: "unat (write s) < 2 ^ n" and r: "unat (read s) < 2 ^ n"
    using lq_inv_exp by blast
  define s' where "s' = s\<lparr>read := (read s + 1) AND qmask s\<rparr>"
  have n32: "n < 32"
    using n(2) by simp
  have rnext: "unat ((read s + 1) AND qmask s) = (unat (read s) + 1) mod 2 ^ n"
    using n(3) n32 by (simp add: unat_succ_and_mask)
  have k: "lq_items s = (unat (write s) + 2 ^ n - unat (read s)) mod 2 ^ n"
    by (simp add: lq_items_def N)
  have "unat (read s) \<noteq> unat (write s)"
    using ring_empty_iff [OF w r] some k by simp
  then have "read s \<noteq> write s"
    by auto
  then have step: "lq_read s = (Blq.q s (read s), s')"
    unfolding s'_def by (rule lq_read_ok)
  have fields: "qlen s' = qlen s" "qmask s' = qmask s" "write s' = write s"
    "read s' = (read s + 1) AND qmask s" "Blq.q s' = Blq.q s"
    by (simp_all add: s'_def)
  have r': "unat (read s') = (unat (read s) + 1) mod 2 ^ n"
    using rnext fields by simp
  have inv': "lq_inv s'"
  proof -
    have "blq_config s'"
      using inv fields by (simp add: lq_inv_def blq_config_def)
    moreover have "read s' < qlen s'"
      using r' N fields by (simp add: word_less_nat_alt)
    moreover have "write s' < qlen s'"
      using inv fields by (simp add: lq_inv_def)
    ultimately show ?thesis
      by (simp add: lq_inv_def)
  qed
  have k': "lq_items s' = lq_items s - 1"
  proof -
    have "lq_items s' = (unat (write s) + 2 ^ n - (unat (read s) + 1) mod 2 ^ n) mod 2 ^ n"
      using r' fields N by (simp add: lq_items_def)
    also have "\<dots> = (unat (write s) + 2 ^ n - unat (read s)) mod 2 ^ n - 1"
      using w r some k by (intro ring_step_read) simp_all
    finally show ?thesis
      using k by simp
  qed
  define f where "f = (\<lambda>i. Blq.q s (word_of_nat ((unat (read s) + i) mod 2 ^ n)))"
  have l: "lq_list s = map f [0..<lq_items s]"
    using N by (simp add: lq_list_def f_def)
  have "hd (lq_list s) = f 0"
    using some l by (simp add: hd_map)
  also have "\<dots> = Blq.q s (read s)"
    using r by (simp add: f_def)
  finally have hd: "hd (lq_list s) = Blq.q s (read s)" .
  have idx: "((unat (read s) + 1) mod 2 ^ n + i) mod 2 ^ n = (unat (read s) + Suc i) mod 2 ^ n"
    for i
    by (simp add: mod_add_left_eq)
  have "lq_list s' = map (\<lambda>i. f (Suc i)) [0..<lq_items s - 1]"
    using k' r' fields N idx by (simp add: lq_list_def f_def)
  also have "\<dots> = map f (map Suc [0..<lq_items s - 1])"
    by simp
  also have "map Suc [0..<lq_items s - 1] = [1..<lq_items s]"
    using some by (simp add: map_Suc_upt)
  also have "map f [1..<lq_items s] = tl (map f [0..<lq_items s])"
    using some by (simp add: map_tl [symmetric] tl_upt)
  finally have "lq_list s' = tl (lq_list s)"
    using l by simp
  with step inv' k' hd show ?thesis
    by simp
qed

lemma lq_write_all_list:
  assumes "lq_inv s" and "lq_items s + length vs \<le> unat (qlen s) - 1"
  shows "fst (lq_write_all s vs) = replicate (length vs) 0 \<and>
         lq_inv (snd (lq_write_all s vs)) \<and>
         qlen (snd (lq_write_all s vs)) = qlen s \<and>
         lq_items (snd (lq_write_all s vs)) = lq_items s + length vs \<and>
         lq_list (snd (lq_write_all s vs)) = lq_list s @ vs"
  using assms
proof (induction vs arbitrary: s)
  case Nil
  then show ?case
    by simp
next
  case (Cons v vs)
  define s1 where "s1 = snd (lq_write s v)"
  have room: "lq_items s < unat (qlen s) - 1"
    using Cons.prems(2) by simp
  note one = lq_write_list [OF Cons.prems(1) room, of v]
  have r: "fst (lq_write s v) = 0" and inv1: "lq_inv s1"
    and k1: "lq_items s1 = lq_items s + 1" and l1: "lq_list s1 = lq_list s @ [v]"
    using one by (simp_all add: s1_def)
  have len1: "qlen s1 = qlen s"
    using r by (simp add: s1_def lq_write_def Let_def split: if_splits)
  have "lq_items s1 + length vs \<le> unat (qlen s1) - 1"
    using Cons.prems(2) k1 len1 by simp
  note rest = Cons.IH [OF inv1 this]
  have unfold: "lq_write_all s (v # vs) =
      (fst (lq_write s v) # fst (lq_write_all s1 vs), snd (lq_write_all s1 vs))"
    by (simp add: s1_def split_beta Let_def)
  show ?case
    unfolding unfold using r rest k1 l1 len1 by simp
qed

lemma lq_read_n_list:
  assumes "lq_inv s" and "j \<le> lq_items s"
  shows "fst (lq_read_n s j) = take j (lq_list s) \<and>
         lq_inv (snd (lq_read_n s j)) \<and>
         lq_items (snd (lq_read_n s j)) = lq_items s - j \<and>
         lq_list (snd (lq_read_n s j)) = drop j (lq_list s)"
  using assms
proof (induction j arbitrary: s)
  case 0
  then show ?case
    by simp
next
  case (Suc j)
  define s1 where "s1 = snd (lq_read s)"
  have some: "0 < lq_items s"
    using Suc.prems(2) by simp
  note one = lq_read_list [OF Suc.prems(1) some]
  have m: "fst (lq_read s) = hd (lq_list s)" and inv1: "lq_inv s1"
    and k1: "lq_items s1 = lq_items s - 1" and l1: "lq_list s1 = tl (lq_list s)"
    using one by (simp_all add: s1_def)
  have "j \<le> lq_items s1"
    using Suc.prems(2) k1 by simp
  note rest = Suc.IH [OF inv1 this]
  have ne: "lq_list s \<noteq> []"
    using some by (simp add: lq_list_def)
  have unfold: "lq_read_n s (Suc j) =
      (fst (lq_read s) # fst (lq_read_n s1 j), snd (lq_read_n s1 j))"
    by (simp add: s1_def split_beta Let_def)
  have "take (Suc j) (lq_list s) = hd (lq_list s) # take j (tl (lq_list s))"
    using ne by (cases "lq_list s") simp_all
  moreover have "drop (Suc j) (lq_list s) = drop j (tl (lq_list s))"
    by (simp add: drop_Suc)
  ultimately show ?case
    unfolding unfold using m rest k1 l1 by simp
qed

lemma lq_empty_list:
  assumes "lq_inv s" and "read s = write s"
  shows "lq_items s = 0" and "lq_list s = []"
proof -
  from assms(1) obtain n where N: "unat (qlen s) = 2 ^ n"
    and w: "unat (write s) < 2 ^ n" and r: "unat (read s) < 2 ^ n"
    using lq_inv_exp by blast
  show "lq_items s = 0"
    using ring_empty_iff [OF w r] assms(2) N by (simp add: lq_items_def)
  then show "lq_list s = []"
    by (simp add: lq_list_def)
qed

subsection \<open>Local writes against plain writes\<close>

lemma succ_and_mask_absorb:
  fixes x :: "32 word"
  assumes "n < 32"
  shows "((x AND mask n) + 1) AND mask n = (x + 1) AND mask n"
proof -
  have "unat (((x AND mask n) + 1) AND mask n) = (unat (x AND mask n) + 1) mod 2 ^ n"
    using assms by (rule unat_succ_and_mask)
  also have "\<dots> = (unat x mod 2 ^ n + 1) mod 2 ^ n"
    by (simp only: unat_and_mask)
  also have "\<dots> = (unat x + 1) mod 2 ^ n"
    by (simp add: mod_Suc_eq)
  also have "\<dots> = unat ((x + 1) AND mask n)"
    using assms by (rule unat_succ_and_mask [symmetric])
  finally show ?thesis
    by (simp only: word_unat_eq_iff)
qed

lemma lq_write_all_Cons_ok:
  assumes "fst (lq_write_all s (v # vs)) = replicate (length (v # vs)) 0"
  shows "fst (lq_write s v) = 0" and
    "fst (lq_write_all (snd (lq_write s v)) vs) = replicate (length vs) 0"
  using assms by (simp_all add: split_beta Let_def)

lemma lq_write_all_Cons_snd:
  "snd (lq_write_all s (v # vs)) = snd (lq_write_all (snd (lq_write s v)) vs)"
  by (simp add: split_beta Let_def)

lemma blq_write_local_all_sim:
  assumes "n < 32"
    and "Blq.q sb = Blq.q sl" and "qmask sb = mask n" and "qmask sl = mask n"
    and "write_priv sb AND mask n = write sl"
    and "fst (lq_write_all sl vs) = replicate (length vs) 0"
  shows "Blq.q (blq_write_local_all sb vs) = Blq.q (snd (lq_write_all sl vs)) \<and>
         write_priv (blq_write_local_all sb vs) AND mask n = write (snd (lq_write_all sl vs)) \<and>
         write_priv (blq_write_local_all sb vs) = write_priv sb + word_of_nat (length vs)"
  using assms(2-)
proof (induction vs arbitrary: sb sl)
  case Nil
  then show ?case
    by simp
next
  case (Cons v vs)
  define sb1 where "sb1 = blq_write_local sb v"
  define sl1 where "sl1 = snd (lq_write sl v)"
  have ok: "fst (lq_write sl v) = 0"
    and rest: "fst (lq_write_all sl1 vs) = replicate (length vs) 0"
    unfolding sl1_def using Cons.prems(5) by (rule lq_write_all_Cons_ok)+
  have "(write sl + 1) AND qmask sl \<noteq> read sl"
    using ok by (simp add: lq_write_ret split: if_splits)
  then have "lq_write sl v =
      (0, sl\<lparr>Blq.q := (Blq.q sl)(write sl := v), write := (write sl + 1) AND qmask sl\<rparr>)"
    by (rule lq_write_ok)
  then have l1: "Blq.q sl1 = (Blq.q sl)(write sl := v)"
    "write sl1 = (write sl + 1) AND mask n" "qmask sl1 = mask n"
    using Cons.prems(3) by (simp_all add: sl1_def)
  have b1: "Blq.q sb1 = (Blq.q sb)(write_priv sb AND mask n := v)"
    "write_priv sb1 = write_priv sb + 1" "qmask sb1 = mask n"
    using Cons.prems(2) by (simp_all add: sb1_def blq_write_local_def)
  have q1: "Blq.q sb1 = Blq.q sl1"
    using l1 b1 Cons.prems(1,4) by simp
  have w1: "write_priv sb1 AND mask n = write sl1"
    using l1 b1 Cons.prems(4) succ_and_mask_absorb [OF assms(1), of "write_priv sb"] by simp
  note ih = Cons.IH [OF q1 b1(3) l1(3) w1 rest]
  have eb: "blq_write_local_all sb (v # vs) = blq_write_local_all sb1 vs"
    by (simp add: sb1_def)
  have el: "snd (lq_write_all sl (v # vs)) = snd (lq_write_all sl1 vs)"
    unfolding sl1_def by (rule lq_write_all_Cons_snd)
  have "write_priv (blq_write_local_all sb1 vs) = write_priv sb + word_of_nat (length (v # vs))"
    using ih b1(2) by simp
  with ih show ?case
    unfolding eb el by blast
qed

lemma blq_wspace_frame:
  "Blq.q (snd (blq_wspace s needed)) = Blq.q s \<and>
   qmask (snd (blq_wspace s needed)) = qmask s \<and>
   qlen (snd (blq_wspace s needed)) = qlen s \<and>
   write_priv (snd (blq_wspace s needed)) = write_priv s \<and>
   write (snd (blq_wspace s needed)) = write s \<and>
   read (snd (blq_wspace s needed)) = read s"
  by (simp add: blq_wspace_def Let_def)

subsection \<open>The clearing loop of the improved FastForward queue\<close>

lemma and_not_mask_round:
  fixes x :: "32 word"
  shows "unat (x AND NOT (mask k)) = unat x div 2 ^ k * 2 ^ k"
proof -
  have "x AND NOT (mask k) = push_bit k (drop_bit k x)"
    by (rule bit_eqI) (auto simp: bit_simps)
  then have "unat (x AND NOT (mask k)) = take_bit 32 (push_bit k (drop_bit k (unat x)))"
    by (simp add: unsigned_push_bit_eq unat_drop_bit_eq)
  also have "\<dots> = take_bit 32 (unat x div 2 ^ k * 2 ^ k)"
    by (simp add: push_bit_eq_mult drop_bit_eq_div)
  also have "\<dots> = unat x div 2 ^ k * 2 ^ k"
  proof -
    have "unat x div 2 ^ k * 2 ^ k \<le> unat x"
      by simp
    also have "unat x < 2 ^ 32"
      using unsigned_less [of x, where 'a = nat] by simp
    finally show ?thesis
      by (simp add: take_bit_nat_eq_self)
  qed
  finally show ?thesis .
qed

lemma unat_add_of_nat_mask:
  fixes c :: "32 word"
  assumes "a < 32"
  shows "unat ((c + word_of_nat j) AND mask a) = (unat c + j) mod 2 ^ a"
proof -
  have dvd: "(2::nat) ^ a dvd 2 ^ 32"
    by (rule le_imp_power_dvd) (use assms in simp)
  have "unat ((c + word_of_nat j) AND mask a) = ((unat c + j mod 2 ^ 32) mod 2 ^ 32) mod 2 ^ a"
    by (simp add: unat_and_mask unat_word_ariths unat_of_nat)
  also have "\<dots> = (unat c + j mod 2 ^ 32) mod 2 ^ a"
    using dvd by (rule mod_mod_cancel)
  also have "\<dots> = (unat c + j) mod 2 ^ a"
    using dvd by (metis mod_add_right_eq mod_mod_cancel)
  finally show ?thesis .
qed

lemma iffq_clear_loop_done: "cons_clear ffq = s \<Longrightarrow> iffq_clear_loop ffq s = ffq"
  by (simp add: iffq_clear_loop.simps)

lemma iffq_clear_loop_step:
  "cons_clear ffq \<noteq> s \<Longrightarrow>
   iffq_clear_loop ffq s =
     iffq_clear_loop (ffq\<lparr>Iffq.q := (Iffq.q ffq)(cons_clear ffq AND entry_mask ffq := 0),
                          cons_clear := cons_clear ffq + 1\<rparr>) s"
  by (subst iffq_clear_loop.simps) simp

lemma cleared_shift:
  fixes c s :: "32 word"
  assumes "c \<noteq> s"
  shows "(\<lambda>j. (c + word_of_nat j) AND m) ` {..<unat (s - c)} =
         insert (c AND m) ((\<lambda>j. (c + 1 + word_of_nat j) AND m) ` {..<unat (s - (c + 1))})"
proof -
  have "s - c \<noteq> 0"
    using assms by simp
  then have "unat (s - c - 1) = unat (s - c) - 1" and pos: "0 < unat (s - c)"
    by (simp_all add: unat_minus_one unat_gt_0)
  then have n: "unat (s - c) = Suc (unat (s - (c + 1)))"
    by (simp add: diff_diff_eq)
  have "{..<Suc (unat (s - (c + 1)))} = insert 0 (Suc ` {..<unat (s - (c + 1))})"
    by (simp add: lessThan_Suc_eq_insert_0)
  then show ?thesis
    unfolding n by (simp add: image_image add.assoc)
qed

lemma iffq_clear_loop_eq:
  "iffq_clear_loop ffq s =
     ffq\<lparr>Iffq.q := (\<lambda>i. if i \<in> (\<lambda>j. (cons_clear ffq + word_of_nat j) AND entry_mask ffq) `
                                  {..<unat (s - cons_clear ffq)}
                           then 0 else Iffq.q ffq i),
         cons_clear := s\<rparr>"
proof (induction ffq s rule: iffq_clear_loop.induct)
  case (1 ffq s)
  show ?case
  proof (cases "cons_clear ffq = s")
    case True
    then show ?thesis
      by (simp add: iffq_clear_loop_done)
  next
    case False
    define ffq1 where
      "ffq1 = ffq\<lparr>Iffq.q := (Iffq.q ffq)(cons_clear ffq AND entry_mask ffq := 0),
                  cons_clear := cons_clear ffq + 1\<rparr>"
    have ih: "iffq_clear_loop ffq1 s =
        ffq1\<lparr>Iffq.q := (\<lambda>i. if i \<in> (\<lambda>j. (cons_clear ffq1 + word_of_nat j) AND entry_mask ffq1) `
                                  {..<unat (s - cons_clear ffq1)}
                           then 0 else Iffq.q ffq1 i),
             cons_clear := s\<rparr>"
      unfolding ffq1_def using False by (rule "1.IH")
    have f1: "cons_clear ffq1 = cons_clear ffq + 1" "entry_mask ffq1 = entry_mask ffq"
      "Iffq.q ffq1 = (Iffq.q ffq)(cons_clear ffq AND entry_mask ffq := 0)"
      by (simp_all add: ffq1_def)
    have sets: "(\<lambda>j. (cons_clear ffq + word_of_nat j) AND entry_mask ffq) `
          {..<unat (s - cons_clear ffq)} =
        insert (cons_clear ffq AND entry_mask ffq)
          ((\<lambda>j. (cons_clear ffq + 1 + word_of_nat j) AND entry_mask ffq) `
            {..<unat (s - (cons_clear ffq + 1))})"
      using False by (rule cleared_shift)
    have "iffq_clear_loop ffq s = iffq_clear_loop ffq1 s"
      unfolding ffq1_def using False by (rule iffq_clear_loop_step)
    also note ih
    finally show ?thesis
      unfolding f1 sets by (auto simp: ffq1_def fun_eq_iff)
  qed
qed

lemma iffq_extract_eq:
  "iffq_extract ffq =
     (Iffq.q ffq (cons_read ffq AND entry_mask ffq),
      if Iffq.q ffq (cons_read ffq AND entry_mask ffq) \<noteq> 0
      then ffq\<lparr>cons_read := cons_read ffq + 1\<rparr> else ffq)"
  by (simp add: iffq_extract_def Let_def)

lemma iffq_clear_beyond:
  assumes a: "a < 32" and m: "entry_mask ffq = mask a"
    and y: "unat (s - cons_clear ffq) \<le> y" "y < 2 ^ a"
  shows "(cons_clear ffq + word_of_nat y) AND entry_mask ffq \<notin>
         (\<lambda>j. (cons_clear ffq + word_of_nat j) AND entry_mask ffq) ` {..<unat (s - cons_clear ffq)}"
proof
  assume "(cons_clear ffq + word_of_nat y) AND entry_mask ffq \<in>
    (\<lambda>j. (cons_clear ffq + word_of_nat j) AND entry_mask ffq) ` {..<unat (s - cons_clear ffq)}"
  then obtain j where j: "j < unat (s - cons_clear ffq)"
    and eq: "(cons_clear ffq + word_of_nat y) AND mask a = (cons_clear ffq + word_of_nat j) AND mask a"
    using m by auto
  from eq have "(unat (cons_clear ffq) + y) mod 2 ^ a = (unat (cons_clear ffq) + j) mod 2 ^ a"
    using unat_add_of_nat_mask [OF a] by metis
  moreover have "j < y"
    using j y(1) by simp
  ultimately show False
    using ring_index_inj [OF _ y(2), of j "unat (cons_clear ffq)"] by simp
qed

subsection \<open>Staging and publishing in the improved FastForward queue\<close>

lemma unat_of_nat_small:
  assumes "k \<le> 256"
  shows "unat (word_of_nat k :: 32 word) = k"
proof -
  have "k \<le> unat (256 :: 32 word)"
    using assms by simp
  then show ?thesis
    by (rule le_unat_uoi)
qed

lemma iffq_insert_local_ok:
  assumes "unat (prod_cache_write ffq) < IFFQ_PROD_CACHE_ENTRIES"
  shows "iffq_insert_local ffq m =
     Some (ffq\<lparr>prod_cache := (prod_cache ffq)(prod_cache_write ffq := m),
               prod_cache_write := prod_cache_write ffq + 1\<rparr>)"
  using assms by (simp add: iffq_insert_local_def)

lemma iffq_insert_local_overflow:
  "iffq_insert_local ffq m = None \<longleftrightarrow> IFFQ_PROD_CACHE_ENTRIES \<le> unat (prod_cache_write ffq)"
  by (simp add: iffq_insert_local_def not_less)

lemma iffq_insert_local_all_staged:
  assumes "prod_cache_write ffq = word_of_nat c" and "c + length vs \<le> IFFQ_PROD_CACHE_ENTRIES"
  shows "\<exists>pc. iffq_insert_local_all ffq vs =
           Some (ffq\<lparr>prod_cache := pc, prod_cache_write := word_of_nat (c + length vs)\<rparr>) \<and>
         (\<forall>i<length vs. pc (word_of_nat (c + i)) = vs ! i) \<and>
         (\<forall>i<c. pc (word_of_nat i) = prod_cache ffq (word_of_nat i))"
  using assms
proof (induction vs arbitrary: ffq c)
  case Nil
  have "ffq\<lparr>prod_cache := prod_cache ffq, prod_cache_write := word_of_nat c\<rparr> = ffq"
    using Nil.prems(1) by simp
  then show ?case
    by (intro exI [of _ "prod_cache ffq"]) simp
next
  case (Cons v vs)
  have c256: "c < 256" "Suc c \<le> 256"
    using Cons.prems(2) by (simp_all add: IFFQ_PROD_CACHE_ENTRIES_def)
  have uc: "unat (prod_cache_write ffq) = c"
    using Cons.prems(1) c256 by (simp add: unat_of_nat_small)
  define ffq1 where
    "ffq1 = ffq\<lparr>prod_cache := (prod_cache ffq)(prod_cache_write ffq := v),
                prod_cache_write := prod_cache_write ffq + 1\<rparr>"
  have one: "iffq_insert_local ffq v = Some ffq1"
    unfolding ffq1_def using uc c256
    by (intro iffq_insert_local_ok) (simp add: IFFQ_PROD_CACHE_ENTRIES_def)
  have w1: "prod_cache_write ffq1 = word_of_nat (Suc c)"
    using Cons.prems(1) by (simp add: ffq1_def)
  have "Suc c + length vs \<le> IFFQ_PROD_CACHE_ENTRIES"
    using Cons.prems(2) by simp
  from Cons.IH [OF w1 this] obtain pc where
    all: "iffq_insert_local_all ffq1 vs =
           Some (ffq1\<lparr>prod_cache := pc, prod_cache_write := word_of_nat (Suc c + length vs)\<rparr>)"
    and new: "\<forall>i<length vs. pc (word_of_nat (Suc c + i)) = vs ! i"
    and old: "\<forall>i<Suc c. pc (word_of_nat i) = prod_cache ffq1 (word_of_nat i)"
    by blast
  have upd: "ffq1\<lparr>prod_cache := pc, prod_cache_write := word_of_nat (Suc c + length vs)\<rparr> =
      ffq\<lparr>prod_cache := pc, prod_cache_write := word_of_nat (c + length (v # vs))\<rparr>"
    by (simp add: ffq1_def)
  have r1: "iffq_insert_local_all ffq (v # vs) =
      Some (ffq\<lparr>prod_cache := pc, prod_cache_write := word_of_nat (c + length (v # vs))\<rparr>)"
    using one all upd by simp
  have at_c: "pc (word_of_nat c) = v"
    using old Cons.prems(1) by (simp add: ffq1_def)
  have r2: "pc (word_of_nat (c + i)) = (v # vs) ! i" if "i < length (v # vs)" for i
  proof (cases i)
    case 0
    then show ?thesis
      using at_c by simp
  next
    case (Suc j)
    then show ?thesis
      using new that by simp
  qed
  have r3: "pc (word_of_nat i) = prod_cache ffq (word_of_nat i)" if "i < c" for i
  proof -
    have "unat (word_of_nat i :: 32 word) = i"
      using that c256 by (simp add: unat_of_nat_small)
    then have "(word_of_nat i :: 32 word) \<noteq> prod_cache_write ffq"
      using uc that by auto
    then show ?thesis
      using old that by (simp add: ffq1_def)
  qed
  from r1 r2 r3 show ?case
    by blast
qed

lemma iffq_insert_publish_loop_eq:
  assumes "i \<le> prod_cache_write ffq"
    and "unat (prod_cache_write ffq) \<le> IFFQ_PROD_CACHE_ENTRIES"
  shows "iffq_insert_publish_loop ffq i =
     Some (ffq\<lparr>Iffq.q :=
                 fold (\<lambda>j q. q((prod_write ffq - i + word_of_nat j) AND entry_mask ffq :=
                                 prod_cache ffq (word_of_nat j)))
                   [unat i..<unat (prod_cache_write ffq)] (Iffq.q ffq),
               prod_write := prod_write ffq - i + prod_cache_write ffq\<rparr>)"
  using assms
proof (induction ffq i rule: iffq_insert_publish_loop.induct)
  case (1 ffq i)
  show ?case
  proof (cases "i < prod_cache_write ffq")
    case False
    with "1.prems"(1) have eq: "i = prod_cache_write ffq"
      by simp
    have "iffq_insert_publish_loop ffq i = Some ffq"
      using False by (subst iffq_insert_publish_loop.simps) simp
    then show ?thesis
      using eq by simp
  next
    case True
    then have lt: "unat i < unat (prod_cache_write ffq)"
      by (simp add: word_less_nat_alt)
    with "1.prems"(2) have inb: "unat i < IFFQ_PROD_CACHE_ENTRIES"
      by simp
    define ffq1 where
      "ffq1 = ffq\<lparr>Iffq.q := (Iffq.q ffq)(prod_write ffq AND entry_mask ffq := prod_cache ffq i),
                  prod_write := prod_write ffq + 1\<rparr>"
    have f1: "prod_cache_write ffq1 = prod_cache_write ffq" "prod_cache ffq1 = prod_cache ffq"
      "entry_mask ffq1 = entry_mask ffq" "prod_write ffq1 = prod_write ffq + 1"
      "Iffq.q ffq1 = (Iffq.q ffq)(prod_write ffq AND entry_mask ffq := prod_cache ffq i)"
      by (simp_all add: ffq1_def)
    have "unat (prod_cache_write ffq) < 2 ^ LENGTH(32)"
      by (rule unsigned_less)
    with lt have "unat i + unat (1 :: 32 word) < 2 ^ LENGTH(32)"
      by simp
    then have ui: "unat (i + 1) = Suc (unat i)"
      by (simp only: unat_add_lem [THEN iffD1] unsigned_1)
    have le1: "i + 1 \<le> prod_cache_write ffq1"
      using lt ui f1 by (simp add: word_le_nat_alt)
    have b1: "unat (prod_cache_write ffq1) \<le> IFFQ_PROD_CACHE_ENTRIES"
      using "1.prems"(2) f1 by simp
    have ih: "iffq_insert_publish_loop ffq1 (i + 1) =
        Some (ffq1\<lparr>Iffq.q :=
                 fold (\<lambda>j q. q((prod_write ffq1 - (i + 1) + word_of_nat j) AND entry_mask ffq1 :=
                                 prod_cache ffq1 (word_of_nat j)))
                   [unat (i + 1)..<unat (prod_cache_write ffq1)] (Iffq.q ffq1),
               prod_write := prod_write ffq1 - (i + 1) + prod_cache_write ffq1\<rparr>)"
      using True inb le1 b1 unfolding ffq1_def by (rule "1.IH")
    have step: "iffq_insert_publish_loop ffq i = iffq_insert_publish_loop ffq1 (i + 1)"
      using True inb unfolding ffq1_def by (subst iffq_insert_publish_loop.simps) simp
    have off: "prod_write ffq1 - (i + 1) = prod_write ffq - i"
      using f1 by simp
    have cons: "[unat i..<unat (prod_cache_write ffq)] =
        unat i # [Suc (unat i)..<unat (prod_cache_write ffq)]"
      using lt by (rule upt_conv_Cons)
    have first: "(Iffq.q ffq)((prod_write ffq - i + word_of_nat (unat i)) AND entry_mask ffq :=
        prod_cache ffq (word_of_nat (unat i))) = Iffq.q ffq1"
      using f1 by simp
    show ?thesis
      unfolding step ih off f1(1-3) ui cons fold_simps first
      by (simp add: ffq1_def)
  qed
qed

lemma fold_upd_distinct:
  assumes "inj_on idx {..<n}" and "i < n"
  shows "fold (\<lambda>j q. q(idx j := val j)) [0..<n] q0 (idx i) = val i"
  using assms
proof (induction n)
  case 0
  then show ?case
    by simp
next
  case (Suc n)
  have inj: "inj_on idx {..<n}"
    using Suc.prems(1) by (rule inj_on_subset) auto
  show ?case
  proof (cases "i = n")
    case True
    then show ?thesis
      by simp
  next
    case False
    with Suc.prems(2) have lt: "i < n"
      by simp
    have "idx i \<noteq> idx n"
      using Suc.prems(1) lt by (auto simp: inj_on_def)
    then show ?thesis
      using Suc.IH [OF inj lt] by simp
  qed
qed

lemma ring_positions_inj:
  fixes pw :: "32 word"
  assumes "a < 32" and "n \<le> 2 ^ a"
  shows "inj_on (\<lambda>j. (pw + word_of_nat j) AND mask a) {..<n}"
proof (rule inj_onI)
  fix x y
  assume x: "x \<in> {..<n}" and y: "y \<in> {..<n}"
    and eq: "(pw + word_of_nat x) AND mask a = (pw + word_of_nat y) AND mask a"
  from eq have m: "(unat pw + x) mod 2 ^ a = (unat pw + y) mod 2 ^ a"
    using unat_add_of_nat_mask [OF assms(1)] by metis
  show "x = y"
  proof (rule ccontr)
    assume "x \<noteq> y"
    then consider "x < y" | "y < x"
      by linarith
    then show False
    proof cases
      case 1
      moreover have "y < 2 ^ a"
        using y assms(2) by simp
      ultimately show False
        using ring_index_inj [of x y "2 ^ a" "unat pw"] m by simp
    next
      case 2
      moreover have "x < 2 ^ a"
        using x assms(2) by simp
      ultimately show False
        using ring_index_inj [of y x "2 ^ a" "unat pw"] m by simp
    qed
  qed
qed

subsection \<open>The cursor window of the two-phase calls\<close>

lemma unat_neg_of_nat:
  assumes "0 < x" and "x < 2 ^ 32"
  shows "unat (- word_of_nat x :: 32 word) = 2 ^ 32 - x"
proof -
  have u: "unat (word_of_nat x :: 32 word) = x"
    using assms(2) by (simp add: unat_of_nat)
  have "unat (0 - word_of_nat x :: 32 word) =
      (if unat (word_of_nat x :: 32 word) \<le> unat (0 :: 32 word) then
         unat (0 :: 32 word) - unat (word_of_nat x :: 32 word)
       else unat (0 :: 32 word) + 2 ^ LENGTH(32) - unat (word_of_nat x :: 32 word))"
    by (rule unat_sub_if')
  then show ?thesis
    using u assms(1) by simp
qed

lemma mod_of_multiple_minus:
  fixes N k x :: nat
  assumes "0 < k" and "x \<le> N" and "0 < x"
  shows "(N * k - x) mod N = N - x"
proof -
  obtain j where j: "k = Suc j"
    using assms(1) by (cases k) simp_all
  have "N * k - x = (N - x) + N * j"
    using assms(2) j by simp
  then have "(N * k - x) mod N = (N - x) mod N"
    by (simp only: mod_mult_self2)
  also have "\<dots> = N - x"
    using assms(2,3) by (intro mod_less) simp
  finally show ?thesis .
qed

lemma wspace_value:
  assumes n: "n < 32" and t: "t \<le> 2 ^ n - 8"
  shows "unat ((- 8 - word_of_nat t :: 32 word) AND mask n) = 2 ^ n - 8 - t"
proof -
  have dvd: "(2::nat) ^ n dvd 2 ^ 32"
    by (rule le_imp_power_dvd) (use n in simp)
  have "(2::nat) ^ n < 2 ^ 32"
    using n by (intro power_strict_increasing) simp_all
  then have small: "8 + t < 2 ^ 32"
    using t by simp
  have eq: "(- 8 - word_of_nat t :: 32 word) = - word_of_nat (8 + t)"
    by simp
  have u: "unat (- 8 - word_of_nat t :: 32 word) = 2 ^ 32 - (8 + t)"
    unfolding eq using small by (intro unat_neg_of_nat) simp_all
  have m: "unat ((- 8 - word_of_nat t :: 32 word) AND mask n) = (2 ^ 32 - (8 + t)) mod 2 ^ n"
    by (simp only: unat_and_mask u)
  show ?thesis
  proof (cases "8 \<le> (2::nat) ^ n")
    case True
    then have le: "8 + t \<le> 2 ^ n"
      using t by simp
    obtain k where k: "(2::nat) ^ 32 = 2 ^ n * k"
      using dvd by (auto simp: dvd_def)
    have kpos: "0 < k"
      using k by (cases k) simp_all
    have "(2 ^ n * k - (8 + t)) mod 2 ^ n = 2 ^ n - (8 + t)"
      using kpos le by (rule mod_of_multiple_minus) simp
    then have "(2 ^ 32 - (8 + t)) mod 2 ^ n = 2 ^ n - (8 + t)"
      by (simp only: k)
    then show ?thesis
      using m by simp
  next
    case False
    then have t0: "t = 0" and z: "(2::nat) ^ n - 8 - t = 0"
      using t by simp_all
    have "n < 3"
    proof (rule ccontr)
      assume "\<not> n < 3"
      then have "(2::nat) ^ 3 \<le> 2 ^ n"
        by (intro power_increasing) simp_all
      with False show False
        by simp
    qed
    then have "(2::nat) ^ n dvd 2 ^ 3"
      by (intro le_imp_power_dvd) simp
    then have "(2::nat) ^ n dvd 8"
      by simp
    with dvd have "(2::nat) ^ n dvd 2 ^ 32 - 8"
      by (rule dvd_diff_nat)
    then have "(2 ^ 32 - (8 + t)) mod 2 ^ n = 0"
      using t0 by simp
    then show ?thesis
      using m z by simp
  qed
qed

lemma unat_of_nat_lt32:
  assumes "k < 2 ^ 32"
  shows "unat (word_of_nat k :: 32 word) = k"
  using assms by (simp add: unat_of_nat)

lemma blq_wspace_eq:
  "blq_wspace s needed =
     (if needed \<le> (read_shadow s - 8 - write_priv s) AND qmask s
      then ((read_shadow s - 8 - write_priv s) AND qmask s, s)
      else ((read s - 8 - write_priv s) AND qmask s, s\<lparr>read_shadow := read s\<rparr>))"
  by (simp add: blq_wspace_def Let_def SPSCQ_CACHELINE_SIZE_def sizeof_uintptr_t_def)

lemma blq_rspace_eq:
  "blq_rspace s needed =
     (if needed \<le> write_shadow s - read_priv s
      then (write_shadow s - read_priv s, s)
      else (write s - read_priv s, s\<lparr>write_shadow := write s\<rparr>))"
  by (simp add: blq_rspace_def Let_def)

lemma blq_windowI:
  assumes "1 \<le> n" "n < 31" "qlen s = 2 ^ n" "qmask s = mask n"
    and "read s = read_shadow s + word_of_nat a"
    and "read_priv s = read s + word_of_nat b"
    and "write_shadow s = read_priv s + word_of_nat c"
    and "write s = write_shadow s + word_of_nat d"
    and "write_priv s = write s + word_of_nat e"
    and "a + b + c + d + e + wb \<le> 2 ^ n - 8" and "rb \<le> c"
  shows "blq_window s wb rb"
  unfolding blq_window_def using assms by blast

lemma blq_window_init:
  assumes "blq_init zero_Blq len = (0, s)"
  shows "blq_window s 0 0"
proof -
  have s: "s = zero_Blq\<lparr>qlen := len, qmask := len - 1\<rparr>"
    using assms by (simp add: blq_init_def split: if_splits)
  from assms have "blq_config s"
    by (rule blq_init_config)
  then obtain n where n: "1 \<le> n" "n < 31" "qlen s = 2 ^ n" "qmask s = mask n"
    using blq_config_exp by blast
  show ?thesis
    using n by (rule blq_windowI [where a = 0 and b = 0 and c = 0 and d = 0 and e = 0])
      (simp_all add: s zero_Blq_def)
qed

lemma blq_window_wspace:
  assumes "blq_window s wb rb"
  shows "blq_window (snd (blq_wspace s needed)) (unat (fst (blq_wspace s needed))) rb \<and>
         unat (fst (blq_wspace s needed)) \<le> unat (qlen s) - 8"
proof -
  from assms obtain n a b c d e where n: "1 \<le> n" "n < 31" "qlen s = 2 ^ n" "qmask s = mask n"
    and r: "read s = read_shadow s + word_of_nat a"
    and rp: "read_priv s = read s + word_of_nat b"
    and ws: "write_shadow s = read_priv s + word_of_nat c"
    and w: "write s = write_shadow s + word_of_nat d"
    and wp: "write_priv s = write s + word_of_nat e"
    and sum: "a + b + c + d + e + wb \<le> 2 ^ n - 8" and rb: "rb \<le> c"
    unfolding blq_window_def by blast
  have n32: "n < 32"
    using n(2) by simp
  have N: "unat (qlen s) = 2 ^ n"
    using n(3) n32 by (simp add: unat_exp32)
  have wp1: "write_priv s = read_shadow s + word_of_nat (a + b + c + d + e)"
    by (simp add: wp w ws rp r)
  have wp2: "write_priv s = read s + word_of_nat (b + c + d + e)"
    by (simp add: wp w ws rp)
  have "read_shadow s - 8 - write_priv s = - 8 - word_of_nat (a + b + c + d + e)"
    unfolding wp1 by simp
  then have v1: "unat ((read_shadow s - 8 - write_priv s) AND qmask s) =
      2 ^ n - 8 - (a + b + c + d + e)"
    using sum n32 by (simp only: n(4)) (intro wspace_value, simp_all)
  have "read s - 8 - write_priv s = - 8 - word_of_nat (b + c + d + e)"
    unfolding wp2 by simp
  then have v2: "unat ((read s - 8 - write_priv s) AND qmask s) = 2 ^ n - 8 - (b + c + d + e)"
    using sum n32 by (simp only: n(4)) (intro wspace_value, simp_all)
  show ?thesis
  proof (cases "needed \<le> (read_shadow s - 8 - write_priv s) AND qmask s")
    case True
    then have eq: "blq_wspace s needed = ((read_shadow s - 8 - write_priv s) AND qmask s, s)"
      by (simp add: blq_wspace_eq)
    have "blq_window s (2 ^ n - 8 - (a + b + c + d + e)) rb"
      using n r rp ws w wp by (rule blq_windowI) (use sum rb in simp_all)
    then show ?thesis
      using eq v1 N by simp
  next
    case False
    then have eq: "blq_wspace s needed =
        ((read s - 8 - write_priv s) AND qmask s, s\<lparr>read_shadow := read s\<rparr>)"
      by (simp add: blq_wspace_eq)
    have "blq_window (s\<lparr>read_shadow := read s\<rparr>) (2 ^ n - 8 - (b + c + d + e)) rb"
      by (rule blq_windowI [where n = n and a = 0 and b = b and c = c and d = d and e = e])
        (use n rp ws w wp sum rb in simp_all)
    then show ?thesis
      using eq v2 N by simp
  qed
qed

lemma blq_window_write_local:
  assumes "blq_window s (Suc wb) rb"
  shows "blq_window (blq_write_local s m) wb rb"
proof -
  from assms obtain n a b c d e where n: "1 \<le> n" "n < 31" "qlen s = 2 ^ n" "qmask s = mask n"
    and r: "read s = read_shadow s + word_of_nat a"
    and rp: "read_priv s = read s + word_of_nat b"
    and ws: "write_shadow s = read_priv s + word_of_nat c"
    and w: "write s = write_shadow s + word_of_nat d"
    and wp: "write_priv s = write s + word_of_nat e"
    and sum: "a + b + c + d + e + Suc wb \<le> 2 ^ n - 8" and rb: "rb \<le> c"
    unfolding blq_window_def by blast
  show ?thesis
    by (rule blq_windowI [where n = n and a = a and b = b and c = c and d = d and e = "Suc e"])
      (use n r rp ws w wp sum rb in \<open>simp_all add: blq_write_local_def\<close>)
qed

lemma blq_window_write_publish:
  assumes "blq_window s wb rb"
  shows "blq_window (blq_write_publish s) wb rb"
proof -
  from assms obtain n a b c d e where n: "1 \<le> n" "n < 31" "qlen s = 2 ^ n" "qmask s = mask n"
    and r: "read s = read_shadow s + word_of_nat a"
    and rp: "read_priv s = read s + word_of_nat b"
    and ws: "write_shadow s = read_priv s + word_of_nat c"
    and w: "write s = write_shadow s + word_of_nat d"
    and wp: "write_priv s = write s + word_of_nat e"
    and sum: "a + b + c + d + e + wb \<le> 2 ^ n - 8" and rb: "rb \<le> c"
    unfolding blq_window_def by blast
  show ?thesis
    by (rule blq_windowI [where n = n and a = a and b = b and c = c and d = "d + e" and e = 0])
      (use n r rp ws w wp sum rb in \<open>simp_all add: blq_write_publish_def\<close>)
qed

lemma blq_window_rspace:
  assumes "blq_window s wb rb"
  shows "blq_window (snd (blq_rspace s needed)) wb (unat (fst (blq_rspace s needed)))"
proof -
  from assms obtain n a b c d e where n: "1 \<le> n" "n < 31" "qlen s = 2 ^ n" "qmask s = mask n"
    and r: "read s = read_shadow s + word_of_nat a"
    and rp: "read_priv s = read s + word_of_nat b"
    and ws: "write_shadow s = read_priv s + word_of_nat c"
    and w: "write s = write_shadow s + word_of_nat d"
    and wp: "write_priv s = write s + word_of_nat e"
    and sum: "a + b + c + d + e + wb \<le> 2 ^ n - 8" and rb: "rb \<le> c"
    unfolding blq_window_def by blast
  have "(2::nat) ^ n < 2 ^ 32"
    using n(2) by (intro power_strict_increasing) simp_all
  then have small: "c + d < 2 ^ 32"
    using sum by simp
  have v1: "unat (write_shadow s - read_priv s) = c"
    using small by (simp add: ws unat_of_nat)
  have "write s - read_priv s = word_of_nat (c + d)"
    by (simp add: w ws)
  then have v2: "unat (write s - read_priv s) = c + d"
    by (simp only: unat_of_nat_lt32 [OF small])
  show ?thesis
  proof (cases "needed \<le> write_shadow s - read_priv s")
    case True
    then have eq: "blq_rspace s needed = (write_shadow s - read_priv s, s)"
      by (simp add: blq_rspace_eq)
    have "blq_window s wb c"
      using n r rp ws w wp sum by (rule blq_windowI) simp
    then show ?thesis
      using eq v1 by simp
  next
    case False
    then have eq: "blq_rspace s needed =
        (write s - read_priv s, s\<lparr>write_shadow := write s\<rparr>)"
      by (simp add: blq_rspace_eq)
    have "blq_window (s\<lparr>write_shadow := write s\<rparr>) wb (c + d)"
      by (rule blq_windowI [where n = n and a = a and b = b and c = "c + d" and d = 0 and e = e])
        (use n r rp ws w wp sum in simp_all)
    then show ?thesis
      using eq v2 by simp
  qed
qed

lemma blq_window_read_local:
  assumes "blq_window s wb (Suc rb)"
  shows "blq_window (snd (blq_read_local s)) wb rb"
proof -
  from assms obtain n a b c d e where n: "1 \<le> n" "n < 31" "qlen s = 2 ^ n" "qmask s = mask n"
    and r: "read s = read_shadow s + word_of_nat a"
    and rp: "read_priv s = read s + word_of_nat b"
    and ws: "write_shadow s = read_priv s + word_of_nat c"
    and w: "write s = write_shadow s + word_of_nat d"
    and wp: "write_priv s = write s + word_of_nat e"
    and sum: "a + b + c + d + e + wb \<le> 2 ^ n - 8" and rb: "Suc rb \<le> c"
    unfolding blq_window_def by blast
  from rb obtain c' where c: "c = Suc c'"
    by (cases c) simp_all
  show ?thesis
    by (rule blq_windowI [where n = n and a = a and b = "Suc b" and c = c' and d = d and e = e])
      (use n r rp ws w wp sum rb c in \<open>simp_all add: blq_read_local_def\<close>)
qed

lemma blq_window_read_publish:
  assumes "blq_window s wb rb"
  shows "blq_window (blq_read_publish s) wb rb"
proof -
  from assms obtain n a b c d e where n: "1 \<le> n" "n < 31" "qlen s = 2 ^ n" "qmask s = mask n"
    and r: "read s = read_shadow s + word_of_nat a"
    and rp: "read_priv s = read s + word_of_nat b"
    and ws: "write_shadow s = read_priv s + word_of_nat c"
    and w: "write s = write_shadow s + word_of_nat d"
    and wp: "write_priv s = write s + word_of_nat e"
    and sum: "a + b + c + d + e + wb \<le> 2 ^ n - 8" and rb: "rb \<le> c"
    unfolding blq_window_def by blast
  show ?thesis
    by (rule blq_windowI [where n = n and a = "a + b" and b = 0 and c = c and d = d and e = e])
      (use n r rp ws w wp sum rb in \<open>simp_all add: blq_read_publish_def\<close>)
qed

lemma blq_protocol_window:
  assumes "blq_protocol s wb rb"
  shows "blq_window s wb rb"
  using assms
proof (induction rule: blq_protocol.induct)
  case (init len s)
  then show ?case
    by (rule blq_window_init)
next
  case (wspace s wb rb needed)
  from wspace.IH show ?case
    using blq_window_wspace by blast
next
  case (write_local s wb rb m)
  from write_local.IH show ?case
    by (rule blq_window_write_local)
next
  case (write_publish s wb rb)
  from write_publish.IH show ?case
    by (rule blq_window_write_publish)
next
  case (rspace s wb rb needed)
  from rspace.IH show ?case
    by (rule blq_window_rspace)
next
  case (read_local s wb rb)
  from read_local.IH show ?case
    by (rule blq_window_read_local)
next
  case (read_publish s wb rb)
  from read_publish.IH show ?case
    by (rule blq_window_read_publish)
qed

lemma blq_window_items:
  assumes "blq_window s wb rb"
  shows "unat (write_priv s - read s) + wb \<le> unat (qlen s) - 8"
proof -
  from assms obtain n a b c d e where n: "1 \<le> n" "n < 31" "qlen s = 2 ^ n" "qmask s = mask n"
    and rp: "read_priv s = read s + word_of_nat b"
    and ws: "write_shadow s = read_priv s + word_of_nat c"
    and w: "write s = write_shadow s + word_of_nat d"
    and wp: "write_priv s = write s + word_of_nat e"
    and sum: "a + b + c + d + e + wb \<le> 2 ^ n - 8"
    unfolding blq_window_def by blast
  have N: "unat (qlen s) = 2 ^ n"
    using n(2,3) by (simp add: unat_exp32)
  have "(2::nat) ^ n < 2 ^ 32"
    using n(2) by (intro power_strict_increasing) simp_all
  then have small: "b + c + d + e < 2 ^ 32"
    using sum by simp
  have "write_priv s - read s = word_of_nat (b + c + d + e)"
    by (simp add: wp w ws rp)
  then have "unat (write_priv s - read s) = b + c + d + e"
    by (simp only: unat_of_nat_lt32 [OF small])
  then show ?thesis
    using sum N by simp
qed

lemma blq_window_wspace_empty:
  assumes "blq_window s wb rb" and "write_priv s = read_shadow s"
  shows "unat (fst (blq_wspace s needed)) = unat (qlen s) - 8"
proof -
  from assms(1) obtain n a b c d e where n: "1 \<le> n" "n < 31" "qlen s = 2 ^ n" "qmask s = mask n"
    and r: "read s = read_shadow s + word_of_nat a"
    and rp: "read_priv s = read s + word_of_nat b"
    and ws: "write_shadow s = read_priv s + word_of_nat c"
    and w: "write s = write_shadow s + word_of_nat d"
    and wp: "write_priv s = write s + word_of_nat e"
    and sum: "a + b + c + d + e + wb \<le> 2 ^ n - 8"
    unfolding blq_window_def by blast
  have n32: "n < 32"
    using n(2) by simp
  have N: "unat (qlen s) = 2 ^ n"
    using n(3) n32 by (simp add: unat_exp32)
  have "(2::nat) ^ n < 2 ^ 32"
    using n(2) by (intro power_strict_increasing) simp_all
  then have small: "a + b + c + d + e < 2 ^ 32"
    using sum by simp
  have "write_priv s = read_shadow s + word_of_nat (a + b + c + d + e)"
    by (simp add: wp w ws rp r)
  with assms(2) have "word_of_nat (a + b + c + d + e) = (0 :: 32 word)"
    by simp
  then have "unat (word_of_nat (a + b + c + d + e) :: 32 word) = 0"
    by simp
  then have z: "a + b + c + d + e = 0"
    by (simp only: unat_of_nat_lt32 [OF small])
  then have "read s = read_shadow s"
    using r by simp
  then have same: "read s - 8 - write_priv s = - 8 - word_of_nat 0"
    "read_shadow s - 8 - write_priv s = - 8 - word_of_nat 0"
    using assms(2) by simp_all
  have "unat ((- 8 - word_of_nat 0 :: 32 word) AND mask n) = 2 ^ n - 8 - 0"
    using n32 by (rule wspace_value) simp
  then have "unat ((read s - 8 - write_priv s) AND qmask s) = 2 ^ n - 8"
    "unat ((read_shadow s - 8 - write_priv s) AND qmask s) = 2 ^ n - 8"
    unfolding same n(4) by simp_all
  then show ?thesis
    using N by (simp add: blq_wspace_eq)
qed

subsection \<open>Filling the improved FastForward queue\<close>

lemma iffq_init_fill_done: "i = cons_read ffq \<Longrightarrow> iffq_init_fill ffq i = ffq"
  by (simp add: iffq_init_fill.simps)

lemma iffq_init_fill_step:
  "i \<noteq> cons_read ffq \<Longrightarrow>
   iffq_init_fill ffq i = iffq_init_fill (ffq\<lparr>Iffq.q := (Iffq.q ffq)(i := 1)\<rparr>) (i + 1)"
  by (subst iffq_init_fill.simps) simp

lemma iffq_init_fill_eq:
  "iffq_init_fill ffq i =
     ffq\<lparr>Iffq.q := (\<lambda>k. if k \<in> (\<lambda>j. i + word_of_nat j) ` {..<unat (cons_read ffq - i)}
                          then 1 else Iffq.q ffq k)\<rparr>"
proof (induction ffq i rule: iffq_init_fill.induct)
  case (1 ffq i)
  show ?case
  proof (cases "i = cons_read ffq")
    case True
    then show ?thesis
      by (simp add: iffq_init_fill_done)
  next
    case False
    define ffq1 where "ffq1 = ffq\<lparr>Iffq.q := (Iffq.q ffq)(i := 1)\<rparr>"
    have ih: "iffq_init_fill ffq1 (i + 1) =
        ffq1\<lparr>Iffq.q := (\<lambda>k. if k \<in> (\<lambda>j. i + 1 + word_of_nat j) `
                                   {..<unat (cons_read ffq1 - (i + 1))}
                             then 1 else Iffq.q ffq1 k)\<rparr>"
      unfolding ffq1_def using False by (rule "1.IH")
    have f1: "cons_read ffq1 = cons_read ffq" "Iffq.q ffq1 = (Iffq.q ffq)(i := 1)"
      by (simp_all add: ffq1_def)
    have "cons_read ffq - i \<noteq> 0"
      using False by simp
    then have "unat (cons_read ffq - i - 1) = unat (cons_read ffq - i) - 1"
      and "0 < unat (cons_read ffq - i)"
      by (simp_all add: unat_minus_one unat_gt_0)
    then have n: "unat (cons_read ffq - i) = Suc (unat (cons_read ffq - (i + 1)))"
      by (simp add: diff_diff_eq)
    have "{..<Suc (unat (cons_read ffq - (i + 1)))} =
        insert 0 (Suc ` {..<unat (cons_read ffq - (i + 1))})"
      by (simp add: lessThan_Suc_eq_insert_0)
    then have sets: "(\<lambda>j. i + word_of_nat j) ` {..<unat (cons_read ffq - i)} =
        insert i ((\<lambda>j. i + 1 + word_of_nat j) ` {..<unat (cons_read ffq - (i + 1))})"
      unfolding n by (simp add: image_image add.assoc)
    have "iffq_init_fill ffq i = iffq_init_fill ffq1 (i + 1)"
      unfolding ffq1_def using False by (rule iffq_init_fill_step)
    also note ih
    finally show ?thesis
      unfolding f1 sets by (auto simp: ffq1_def fun_eq_iff)
  qed
qed

lemma iffq_init_improved:
  assumes "iffq_init ffq0 entries line_size 1 = (0, ffq)"
  shows "\<exists>a c. a < 32 \<and> 3 \<le> c \<and> c < 32 \<and> entries = 2 ^ a \<and> line_size = 2 ^ c \<and>
           unat line_size div sizeof_uintptr_t = 2 ^ (c - 3) \<and>
           (c < 31 \<longrightarrow> c \<le> a + 1) \<and>
           entry_mask ffq = mask a \<and> line_entries ffq = 2 ^ (c - 3) \<and>
           prod_write ffq = 2 ^ (c - 3) \<and> prod_check ffq = 2 ^ (c - 3) \<and>
           Iffq.q ffq = (\<lambda>k. if k < 2 ^ (c - 3) then 1 else Iffq.q ffq0 k)"
proof -
  have valid: "\<not> (\<not> is_power_of_two entries \<or> \<not> is_power_of_two line_size \<or>
           ((1::int) \<noteq> 0 \<and> unat entries * sizeof_uintptr_t \<le> unat (2 * line_size)) \<or>
           unat line_size < sizeof_uintptr_t)"
  proof
    assume "\<not> is_power_of_two entries \<or> \<not> is_power_of_two line_size \<or>
           ((1::int) \<noteq> 0 \<and> unat entries * sizeof_uintptr_t \<le> unat (2 * line_size)) \<or>
           unat line_size < sizeof_uintptr_t"
    then have "iffq_init ffq0 entries line_size 1 = (- EINVAL, ffq0)"
      by (rule iffq_init_invalid)
    with assms show False
      by (simp add: EINVAL_def)
  qed
  then have pe: "is_power_of_two entries" and pl: "is_power_of_two line_size"
    and big: "unat (2 * line_size) < unat entries * 8" and l8: "8 \<le> unat line_size"
    by (simp_all add: sizeof_uintptr_t_def not_le not_less)
  from big have "entries \<noteq> 0"
    by auto
  with pe obtain a where a: "a < 32" "entries = 2 ^ a"
    using is_power_of_two_exp by blast
  from l8 have "line_size \<noteq> 0"
    by auto
  with pl obtain c where c: "c < 32" "line_size = 2 ^ c"
    using is_power_of_two_exp by blast
  have ul: "unat line_size = 2 ^ c"
    using c by (simp add: unat_exp32)
  have ue: "unat entries = 2 ^ a"
    using a by (simp add: unat_exp32)
  have c3: "3 \<le> c"
  proof (rule ccontr)
    assume "\<not> 3 \<le> c"
    then have "c < 3"
      by simp
    then have "(2::nat) ^ c < 2 ^ 3"
      by (intro power_strict_increasing) simp_all
    with l8 ul show False
      by simp
  qed
  have "(2::nat) ^ (c - 3 + 3) = 2 ^ (c - 3) * 2 ^ 3"
    by (rule power_add)
  moreover have "c - 3 + 3 = c"
    using c3 by simp
  ultimately have split: "(2::nat) ^ c = 2 ^ (c - 3) * 8"
    by simp
  have L: "unat line_size div sizeof_uintptr_t = 2 ^ (c - 3)"
    using ul split by (simp add: sizeof_uintptr_t_def)
  have rel: "c \<le> a + 1" if "c < 31"
  proof -
    have "Suc c < 32"
      using that by simp
    then have "unat (2 ^ Suc c :: 32 word) = 2 ^ Suc c"
      by (rule unat_exp32)
    then have "unat (2 * line_size) = 2 ^ Suc c"
      using c by simp
    with big ue have "(2::nat) ^ Suc c < 2 ^ a * 2 ^ 3"
      by simp
    then have "(2::nat) ^ Suc c < 2 ^ (a + 3)"
      by (simp add: power_add)
    then have "Suc c < a + 3"
      by (simp only: power_strict_increasing_iff)
    then show ?thesis
      by simp
  qed
  have Lw: "(word_of_nat (unat line_size div sizeof_uintptr_t) :: 32 word) = 2 ^ (c - 3)"
    unfolding L by simp
  define ffq2 where "ffq2 = ffq0\<lparr>line_entries := 2 ^ (c - 3),
       line_mask := NOT (2 ^ (c - 3) - 1), entry_mask := entries - 1,
       cons_clear := 0, cons_read := 2 ^ (c - 3), prod_write := 2 ^ (c - 3),
       prod_check := 2 ^ (c - 3), prod_cache_write := 0\<rparr>"
  have "iffq_init ffq0 entries line_size 1 = (0, iffq_init_fill ffq2 0)"
    using valid by (simp add: iffq_init_def Let_def Lw ffq2_def)
  with assms have res: "ffq = iffq_init_fill ffq2 0"
    by simp
  have u: "unat (2 ^ (c - 3) :: 32 word) = 2 ^ (c - 3)"
    using c(1) by (intro unat_exp32) simp
  have img: "(\<lambda>j. 0 + word_of_nat j) ` {..<unat (cons_read ffq2 - 0)} = {k :: 32 word. k < 2 ^ (c - 3)}"
  proof (rule set_eqI)
    fix k :: "32 word"
    show "k \<in> (\<lambda>j. 0 + word_of_nat j) ` {..<unat (cons_read ffq2 - 0)} \<longleftrightarrow>
        k \<in> {k. k < 2 ^ (c - 3)}"
    proof
      assume "k \<in> (\<lambda>j. 0 + word_of_nat j) ` {..<unat (cons_read ffq2 - 0)}"
      then obtain j where j: "j < 2 ^ (c - 3)" and k: "k = word_of_nat j"
        using u by (auto simp: ffq2_def)
      have "j < unat (2 ^ (c - 3) :: 32 word)"
        using j u by simp
      then have "(word_of_nat j :: 32 word) < 2 ^ (c - 3)"
        by (rule of_nat_lt_qlen)
      then show "k \<in> {k. k < 2 ^ (c - 3)}"
        using k by simp
    next
      assume "k \<in> {k. k < 2 ^ (c - 3)}"
      then have "unat k < 2 ^ (c - 3)"
        using u by (simp add: word_less_nat_alt)
      then have "unat k \<in> {..<unat (cons_read ffq2 - 0)}"
        using u by (simp add: ffq2_def)
      moreover have "k = 0 + word_of_nat (unat k)"
        by simp
      ultimately show "k \<in> (\<lambda>j. 0 + word_of_nat j) ` {..<unat (cons_read ffq2 - 0)}"
        by (rule rev_image_eqI)
    qed
  qed
  have fill: "ffq = ffq2\<lparr>Iffq.q := (\<lambda>k. if k < 2 ^ (c - 3) then 1 else Iffq.q ffq2 k)\<rparr>"
    unfolding res iffq_init_fill_eq img by simp
  have em: "entry_mask ffq = mask a"
    using a by (simp add: fill ffq2_def mask_eq_decr_exp)
  have q2: "Iffq.q ffq2 = Iffq.q ffq0"
    by (simp add: ffq2_def)
  have flds: "line_entries ffq = 2 ^ (c - 3)" "prod_write ffq = 2 ^ (c - 3)"
    "prod_check ffq = 2 ^ (c - 3)"
    "Iffq.q ffq = (\<lambda>k. if k < 2 ^ (c - 3) then 1 else Iffq.q ffq0 k)"
    unfolding fill q2 by (simp_all add: ffq2_def)
  show ?thesis
    using a c c3 L rel em flds by blast
qed

lemma iffq_insert_at_check:
  assumes "prod_write f = prod_check f"
    and "Iffq.q f ((prod_check f + line_entries f) AND entry_mask f) = 0"
  shows "iffq_insert f m =
     (0, f\<lparr>prod_check := prod_check f + line_entries f,
            Iffq.q := (Iffq.q f)(prod_write f AND entry_mask f := m),
            prod_write := prod_write f + 1\<rparr>)"
  using assms by (simp add: iffq_insert_def Let_def)

lemma iffq_insert_inside:
  assumes "prod_write f \<noteq> prod_check f"
  shows "iffq_insert f m =
     (0, f\<lparr>Iffq.q := (Iffq.q f)(prod_write f AND entry_mask f := m),
            prod_write := prod_write f + 1\<rparr>)"
  using assms by (simp add: iffq_insert_def Let_def)

lemma iffq_insert_blocked:
  assumes "prod_write f = prod_check f"
    and "Iffq.q f ((prod_check f + line_entries f) AND entry_mask f) \<noteq> 0"
  shows "iffq_insert f m = (- ENOBUFS, f)"
  using assms by (simp add: iffq_insert_def Let_def)

lemma iffq_filledI:
  assumes "a < 32" "b + 2 \<le> a" "entry_mask f = mask a" "line_entries f = 2 ^ b"
    and "n + 2 * 2 ^ b \<le> 2 ^ a" and "unat (prod_write f) = 2 ^ b + n"
    and "d < 2 ^ b" "unat (prod_check f) = 2 ^ b + n + d" "2 ^ b dvd n + d"
    and "Iffq.q f 0 \<noteq> 0"
    and "\<And>k. 2 ^ b + n \<le> unat k \<Longrightarrow> unat k < 2 ^ a \<Longrightarrow> Iffq.q f k = 0"
  shows "iffq_filled a b f n"
  unfolding iffq_filled_def using assms by blast

lemma iffq_filled_step:
  assumes inv: "iffq_filled a b f n" and room: "n + 2 * 2 ^ b < 2 ^ a"
  shows "fst (iffq_insert f m) = 0 \<and> iffq_filled a b (snd (iffq_insert f m)) (Suc n)"
proof -
  from inv obtain d where a: "a < 32" and ba: "b + 2 \<le> a"
    and em: "entry_mask f = mask a" and le: "line_entries f = 2 ^ b"
    and pw: "unat (prod_write f) = 2 ^ b + n"
    and d: "d < 2 ^ b" and pc: "unat (prod_check f) = 2 ^ b + n + d" and dv: "2 ^ b dvd n + d"
    and q0: "Iffq.q f 0 \<noteq> 0"
    and zeros: "\<And>k. 2 ^ b + n \<le> unat k \<Longrightarrow> unat k < 2 ^ a \<Longrightarrow> Iffq.q f k = 0"
    unfolding iffq_filled_def by blast
  have E32: "(2::nat) ^ a < 2 ^ 32"
    using a by (intro power_strict_increasing) simp_all
  have lew: "line_entries f = word_of_nat (2 ^ b)"
    using le by simp
  have widx: "unat (prod_write f AND entry_mask f) = 2 ^ b + n"
    using room pw unfolding em by (simp add: unat_and_mask)
  have "unat (prod_write f) + unat (1 :: 32 word) < 2 ^ LENGTH(32)"
    using pw room E32 by simp
  then have pw1: "unat (prod_write f + 1) = 2 ^ b + Suc n"
    using pw by (simp only: unat_add_lem [THEN iffD1] unsigned_1)
  have idx0: "prod_write f AND entry_mask f \<noteq> 0"
    using widx by (metis add_is_0 power_not_zero unsigned_0 zero_neq_numeral)
  have keep: "((Iffq.q f)(prod_write f AND entry_mask f := m)) k = 0"
    if "2 ^ b + Suc n \<le> unat k" "unat k < 2 ^ a" for k
  proof -
    have "k \<noteq> prod_write f AND entry_mask f"
      using that(1) widx by auto
    moreover have "Iffq.q f k = 0"
      using that by (intro zeros) simp_all
    ultimately show ?thesis
      by simp
  qed
  show ?thesis
  proof (cases "d = 0")
    case True
    have same: "prod_write f = prod_check f"
      using pw pc True by (simp add: word_unat_eq_iff)
    have "unat ((prod_check f + word_of_nat (2 ^ b)) AND mask a) =
        (unat (prod_check f) + 2 ^ b) mod 2 ^ a"
      using a by (rule unat_add_of_nat_mask)
    also have "\<dots> = 2 ^ b + n + 2 ^ b"
      using pc True room by simp
    finally have cidx: "unat ((prod_check f + line_entries f) AND entry_mask f) =
        2 ^ b + n + 2 ^ b"
      unfolding em lew .
    have "Iffq.q f ((prod_check f + line_entries f) AND entry_mask f) = 0"
      using cidx room by (intro zeros) simp_all
    with same have res: "iffq_insert f m =
       (0, f\<lparr>prod_check := prod_check f + line_entries f,
            Iffq.q := (Iffq.q f)(prod_write f AND entry_mask f := m),
            prod_write := prod_write f + 1\<rparr>)"
      by (rule iffq_insert_at_check)
    have "unat (prod_check f) + unat (line_entries f) < 2 ^ LENGTH(32)"
      using pc True le a ba room E32 by (simp add: unat_exp32)
    then have pc1: "unat (prod_check f + line_entries f) = 2 ^ b + Suc n + (2 ^ b - 1)"
      using pc True le a ba by (simp only: unat_add_lem [THEN iffD1]) (simp add: unat_exp32)
    have dv1: "(2::nat) ^ b dvd Suc n + (2 ^ b - 1)"
    proof -
      have "Suc n + (2 ^ b - 1) = n + 2 ^ b"
        by simp
      moreover have "(2::nat) ^ b dvd n + 2 ^ b"
        using dv True by simp
      ultimately show ?thesis
        by simp
    qed
    have "iffq_filled a b (f\<lparr>prod_check := prod_check f + line_entries f,
            Iffq.q := (Iffq.q f)(prod_write f AND entry_mask f := m),
            prod_write := prod_write f + 1\<rparr>) (Suc n)"
    proof (rule iffq_filledI [where d = "2 ^ b - 1"])
      show "Iffq.q (f\<lparr>prod_check := prod_check f + line_entries f,
            Iffq.q := (Iffq.q f)(prod_write f AND entry_mask f := m),
            prod_write := prod_write f + 1\<rparr>) k = 0"
        if "2 ^ b + Suc n \<le> unat k" "unat k < 2 ^ a" for k
        using keep [OF that] by simp
    qed (use a ba em le room pw1 pc1 dv1 q0 idx0 in simp_all)
    with res show ?thesis
      by simp
  next
    case False
    have diff: "prod_write f \<noteq> prod_check f"
      using pw pc False by (auto simp: word_unat_eq_iff)
    then have res: "iffq_insert f m =
       (0, f\<lparr>Iffq.q := (Iffq.q f)(prod_write f AND entry_mask f := m),
            prod_write := prod_write f + 1\<rparr>)"
      by (rule iffq_insert_inside)
    have pc1: "unat (prod_check f) = 2 ^ b + Suc n + (d - 1)"
      using pc False by simp
    have dv1: "(2::nat) ^ b dvd Suc n + (d - 1)"
      using dv False by simp
    have "iffq_filled a b (f\<lparr>Iffq.q := (Iffq.q f)(prod_write f AND entry_mask f := m),
            prod_write := prod_write f + 1\<rparr>) (Suc n)"
    proof (rule iffq_filledI [where d = "d - 1"])
      show "Iffq.q (f\<lparr>Iffq.q := (Iffq.q f)(prod_write f AND entry_mask f := m),
            prod_write := prod_write f + 1\<rparr>) k = 0"
        if "2 ^ b + Suc n \<le> unat k" "unat k < 2 ^ a" for k
        using keep [OF that] by simp
    qed (use a ba em le room pw1 pc1 dv1 q0 idx0 d in simp_all)
    with res show ?thesis
      by simp
  qed
qed

lemma iffq_filled_full:
  assumes inv: "iffq_filled a b f n" and full: "n + 2 * 2 ^ b = 2 ^ a"
  shows "iffq_insert f m = (- ENOBUFS, f)"
proof -
  from inv obtain d where a: "a < 32" and ba: "b + 2 \<le> a"
    and em: "entry_mask f = mask a" and le: "line_entries f = 2 ^ b"
    and pw: "unat (prod_write f) = 2 ^ b + n"
    and d: "d < 2 ^ b" and pc: "unat (prod_check f) = 2 ^ b + n + d" and dv: "2 ^ b dvd n + d"
    and q0: "Iffq.q f 0 \<noteq> 0"
    unfolding iffq_filled_def by blast
  have "(2::nat) ^ b dvd 2 ^ a"
    using ba by (intro le_imp_power_dvd) simp
  then have "(2::nat) ^ b dvd n + 2 * 2 ^ b"
    using full by simp
  then have "(2::nat) ^ b dvd n"
    by (simp add: dvd_add_left_iff)
  with dv have "(2::nat) ^ b dvd d"
    by (simp add: dvd_add_right_iff)
  with d have d0: "d = 0"
    by (meson dvd_imp_le not_less not_gr_zero)
  have same: "prod_write f = prod_check f"
    using pw pc d0 by (simp add: word_unat_eq_iff)
  have lew: "line_entries f = word_of_nat (2 ^ b)"
    using le by simp
  have "unat ((prod_check f + word_of_nat (2 ^ b)) AND mask a) =
      (unat (prod_check f) + 2 ^ b) mod 2 ^ a"
    using a by (rule unat_add_of_nat_mask)
  also have "unat (prod_check f) + 2 ^ b = 2 ^ a"
    using pc d0 full by simp
  finally have "unat ((prod_check f + line_entries f) AND entry_mask f) = unat (0 :: 32 word)"
    unfolding em lew by simp
  then have "(prod_check f + line_entries f) AND entry_mask f = 0"
    by (simp only: word_unat_eq_iff)
  then have "Iffq.q f ((prod_check f + line_entries f) AND entry_mask f) \<noteq> 0"
    using q0 by simp
  with same show ?thesis
    by (rule iffq_insert_blocked)
qed

lemma iffq_insert_all_Cons:
  "iffq_insert_all f (v # vs) =
     (fst (iffq_insert f v) # fst (iffq_insert_all (snd (iffq_insert f v)) vs),
      snd (iffq_insert_all (snd (iffq_insert f v)) vs))"
  by (simp add: split_beta Let_def)

lemma iffq_filled_all:
  assumes "iffq_filled a b f n" and "n + length vs + 2 * 2 ^ b \<le> 2 ^ a"
  shows "fst (iffq_insert_all f vs) = replicate (length vs) 0 \<and>
         iffq_filled a b (snd (iffq_insert_all f vs)) (n + length vs)"
  using assms
proof (induction vs arbitrary: f n)
  case Nil
  then show ?case
    by simp
next
  case (Cons v vs)
  have room: "n + 2 * 2 ^ b < 2 ^ a"
    using Cons.prems(2) by simp
  note one = iffq_filled_step [OF Cons.prems(1) room, of v]
  have "Suc n + length vs + 2 * 2 ^ b \<le> 2 ^ a"
    using Cons.prems(2) by simp
  with one have rest: "fst (iffq_insert_all (snd (iffq_insert f v)) vs) = replicate (length vs) 0 \<and>
      iffq_filled a b (snd (iffq_insert_all (snd (iffq_insert f v)) vs)) (Suc n + length vs)"
    by (intro Cons.IH) simp_all
  show ?case
    unfolding iffq_insert_all_Cons using one rest by simp
qed

subsection \<open>Initialisation parameters handled as documented\<close>

lemma blq_init_validation:
  "fst (blq_init blq 0) < 0 \<and> fst (blq_init blq 3) < 0 \<and> fst (blq_init blq 5) < 0 \<and>
   fst (blq_init blq 100) < 0 \<and> fst (blq_init blq 2) = 0 \<and> fst (blq_init blq 4) = 0 \<and>
   fst (blq_init blq 1024) = 0"
  by (simp add: blq_init_def is_power_of_two_def)

lemma iffq_init_rejects:
  "fst (iffq_init ffq 3 line_size improved) < 0"
  "fst (iffq_init ffq 5 line_size improved) < 0"
  "fst (iffq_init ffq 100 line_size improved) < 0"
  "improved \<noteq> 0 \<Longrightarrow> fst (iffq_init ffq 0 line_size improved) < 0"
  "\<not> is_power_of_two line_size \<Longrightarrow> fst (iffq_init ffq entries line_size improved) < 0"
  "unat line_size < sizeof_uintptr_t \<Longrightarrow> fst (iffq_init ffq entries line_size improved) < 0"
  "improved \<noteq> 0 \<Longrightarrow> unat entries * sizeof_uintptr_t \<le> unat (2 * line_size) \<Longrightarrow>
     fst (iffq_init ffq entries line_size improved) < 0"
  by (simp_all add: iffq_init_invalid is_power_of_two_def EINVAL_def)

lemma iffq_init_accepts:
  assumes "is_power_of_two line_size" and "sizeof_uintptr_t \<le> unat line_size"
  shows "fst (iffq_init ffq 2 line_size 0) = 0"
    and "fst (iffq_init ffq 4 line_size 0) = 0"
    and "fst (iffq_init ffq 1024 line_size 0) = 0"
  using assms by (simp_all add: iffq_init_valid is_power_of_two_def)

section \<open>The claims\<close>

subsection \<open>The sentinel value in the FastForward family\<close>

text \<open>
  Claim C3 as stated fails: on a FastForward queue initialised over zero-filled memory,
  \<^verbatim>\<open>ffq_write(ffq, 0)\<close> and \<^verbatim>\<open>iffq_insert(ffq, 0)\<close> both return 0, the success code.
\<close>

theorem sentinel_accepted_counterexample:
  "fst (ffq_write (snd (iffq_init zero_Iffq 4 8 0)) 0) = 0 \<and>
   fst (iffq_insert (snd (iffq_init zero_Iffq 1024 64 1)) 0) = 0"
  by (simp add: ffq_write_def iffq_insert_def iffq_init_def iffq_init_fill.simps
      is_power_of_two_def sizeof_uintptr_t_def zero_Iffq_def Let_def)

text \<open>
  Claim C3, amended: \<^verbatim>\<open>ffq_write\<close> and \<^verbatim>\<open>iffq_insert\<close> never look at the value. A call that
  enqueues the sentinel 0 returns what a call with any other value returns in the same
  state: \<^verbatim>\<open>ffq_write\<close> succeeds exactly when the target slot is free, \<^verbatim>\<open>iffq_insert\<close>
  exactly when the producer is not at its check cursor or the slot one line past the check
  cursor is free. An accepted 0 advances \<^verbatim>\<open>prod_write\<close> and leaves the slot reading as
  empty. Keeping 0 out of the queue is left to the caller.
\<close>

theorem sentinel_not_checked:
  "fst (ffq_write ffq 0) = fst (ffq_write ffq m) \<and>
   fst (iffq_insert ffq 0) = fst (iffq_insert ffq m) \<and>
   (fst (ffq_write ffq 0) = 0 \<longleftrightarrow> Iffq.q ffq (prod_write ffq AND entry_mask ffq) = 0) \<and>
   (fst (iffq_insert ffq 0) = 0 \<longleftrightarrow>
      prod_write ffq \<noteq> prod_check ffq \<or>
      Iffq.q ffq ((prod_check ffq + line_entries ffq) AND entry_mask ffq) = 0) \<and>
   (fst (ffq_write ffq 0) = 0 \<longrightarrow>
      snd (ffq_write ffq 0) = ffq\<lparr>prod_write := prod_write ffq + 1\<rparr>) \<and>
   (fst (iffq_insert ffq 0) = 0 \<longrightarrow>
      prod_write (snd (iffq_insert ffq 0)) = prod_write ffq + 1 \<and>
      Iffq.q (snd (iffq_insert ffq 0)) (prod_write ffq AND entry_mask ffq) = 0)"
proof (intro conjI impI)
  show "fst (ffq_write ffq 0) = fst (ffq_write ffq m)"
    by (simp only: ffq_write_ret)
  show "fst (iffq_insert ffq 0) = fst (iffq_insert ffq m)"
    by (simp only: iffq_insert_ret)
  show "fst (ffq_write ffq 0) = 0 \<longleftrightarrow> Iffq.q ffq (prod_write ffq AND entry_mask ffq) = 0"
    by (simp add: ffq_write_ret)
  show "fst (iffq_insert ffq 0) = 0 \<longleftrightarrow>
      prod_write ffq \<noteq> prod_check ffq \<or>
      Iffq.q ffq ((prod_check ffq + line_entries ffq) AND entry_mask ffq) = 0"
    by (auto simp add: iffq_insert_ret ENOBUFS_def)
next
  assume "fst (ffq_write ffq 0) = 0"
  then have "Iffq.q ffq (prod_write ffq AND entry_mask ffq) = 0"
    by (simp add: ffq_write_ret split: if_splits)
  then show "snd (ffq_write ffq 0) = ffq\<lparr>prod_write := prod_write ffq + 1\<rparr>"
    by (simp only: ffq_write_zero_free snd_conv)
next
  assume ok: "fst (iffq_insert ffq 0) = 0"
  then show "prod_write (snd (iffq_insert ffq 0)) = prod_write ffq + 1"
    by (rule iffq_insert_ok)
  from ok show "Iffq.q (snd (iffq_insert ffq 0)) (prod_write ffq AND entry_mask ffq) = 0"
    by (rule iffq_insert_ok)
qed


theorem sentinel_not_checked_witness:
  "fst (ffq_write (zero_Iffq\<lparr>entry_mask := 3\<rparr>) 0) = 0 \<and>
   fst (iffq_insert (zero_Iffq\<lparr>entry_mask := 3\<rparr>) 0) = 0 \<and>
   snd (ffq_write (zero_Iffq\<lparr>entry_mask := 3\<rparr>) 0) = zero_Iffq\<lparr>entry_mask := 3, prod_write := 1\<rparr> \<and>
   prod_write (snd (iffq_insert (zero_Iffq\<lparr>entry_mask := 3\<rparr>) 0)) = 1"
proof -
  let ?f = "zero_Iffq\<lparr>entry_mask := 3\<rparr>"
  have free: "Iffq.q ?f (prod_write ?f AND entry_mask ?f) = 0"
    by (simp add: zero_Iffq_def)
  have line: "Iffq.q ?f ((prod_check ?f + line_entries ?f) AND entry_mask ?f) = 0"
    by (simp add: zero_Iffq_def)
  have pw: "prod_write ?f = 0"
    by (simp add: zero_Iffq_def)
  from sentinel_not_checked [of ?f 7] free line pw show ?thesis
    by (simp add: zero_Iffq_def)
qed

subsection \<open>Validation of the initialisation parameters\<close>

text \<open>
  Claim C4 at the input where the code departs from it: \<^verbatim>\<open>iffq_init\<close> with 0 entries, a line
  size of 64 bytes and \<^verbatim>\<open>improved = 0\<close> returns 0, the success code, and leaves an entry mask
  of all ones. \<^verbatim>\<open>is_power_of_two(0)\<close> is true, and unlike \<^verbatim>\<open>blq_init\<close>, which adds the test
  \<^verbatim>\<open>qlen < 2\<close>, \<^verbatim>\<open>iffq_init\<close> excludes 0 entries only in improved mode. The other values
  and conditions of the claim are handled as it says (\<open>blq_init_validation\<close>,
  \<open>iffq_init_rejects\<close>, \<open>iffq_init_accepts\<close>).
\<close>

theorem iffq_init_zero_entries:
  "fst (iffq_init ffq 0 64 0) = 0 \<and> entry_mask (snd (iffq_init ffq 0 64 0)) = - 1"
  by (simp add: iffq_init_def is_power_of_two_def sizeof_uintptr_t_def Let_def)

theorem iffq_init_zero_entries_witness:
  "fst (iffq_init zero_Iffq 0 64 0) = 0 \<and>
   entry_mask (snd (iffq_init zero_Iffq 0 64 0)) = 4294967295"
  using iffq_init_zero_entries [of zero_Iffq] by simp

subsection \<open>Full and empty boundary of the plain Lamport queue\<close>

text \<open>
  Claim C2 as stated fails in its last part: \<^verbatim>\<open>lq_write\<close> accepts the value 0, and on the
  queue that holds this one item \<^verbatim>\<open>lq_read\<close> returns 0, the value that reports an empty
  queue, although the read cursor differs from the write cursor.
\<close>

theorem lq_read_zero_payload_counterexample:
  "fst (lq_read (snd (lq_write (snd (blq_init zero_Blq 4)) 0))) = 0 \<and>
   read (snd (lq_write (snd (blq_init zero_Blq 4)) 0)) \<noteq>
   write (snd (lq_write (snd (blq_init zero_Blq 4)) 0))"
  by (simp add: blq_init_def is_power_of_two_def lq_write_def lq_read_def zero_Blq_def Let_def)

text \<open>
  Claim C2, amended: let the queue be configured as \<^verbatim>\<open>blq_init\<close> leaves it, with both
  cursors below the capacity. \<^verbatim>\<open>lq_write\<close> returns -1 if and only if
  \<open>(write + 1) mod capacity\<close> equals the read cursor, which is the case if and only if
  \<open>capacity - 1\<close> items are present; otherwise it stores the value at the write index and
  advances the write cursor by one modulo the capacity. \<^verbatim>\<open>lq_read\<close> leaves the queue
  unchanged and returns 0 if the read cursor equals the write cursor, that is if no item is
  present; otherwise it returns the slot at the read index and advances the read cursor by
  one modulo the capacity. The returned value tells the two cases apart only when the slot
  at the read cursor is not 0: then \<^verbatim>\<open>lq_read\<close> returns 0 if and only if the cursors are
  equal. In every state the queue is left unchanged if and only if the cursors are equal.
\<close>

theorem lq_full_empty_boundary:
  assumes "blq_config s" and "write s < qlen s" and "read s < qlen s"
  shows "(fst (lq_write s m) = - 1 \<longleftrightarrow>
            (unat (write s) + 1) mod unat (qlen s) = unat (read s)) \<and>
         (fst (lq_write s m) = - 1 \<longleftrightarrow> lq_items s = unat (qlen s) - 1) \<and>
         (fst (lq_write s m) \<noteq> - 1 \<longrightarrow>
            lq_write s m =
              (0, s\<lparr>Blq.q := (Blq.q s)(write s := m), write := (write s + 1) AND qmask s\<rparr>) \<and>
            unat ((write s + 1) AND qmask s) = (unat (write s) + 1) mod unat (qlen s)) \<and>
         (read s = write s \<longleftrightarrow> lq_items s = 0) \<and>
         (read s = write s \<longrightarrow> lq_read s = (0, s)) \<and>
         (read s \<noteq> write s \<longrightarrow>
            lq_read s = (Blq.q s (read s), s\<lparr>read := (read s + 1) AND qmask s\<rparr>) \<and>
            unat ((read s + 1) AND qmask s) = (unat (read s) + 1) mod unat (qlen s)) \<and>
         (Blq.q s (read s) \<noteq> 0 \<longrightarrow> (fst (lq_read s) = 0 \<longleftrightarrow> read s = write s)) \<and>
         (snd (lq_read s) = s \<longleftrightarrow> read s = write s)"
proof -
  from assms(1) obtain n where n: "1 \<le> n" "n < 31" "qlen s = 2 ^ n" "qmask s = mask n"
    using blq_config_exp by blast
  have n32: "n < 32"
    using n(2) by simp
  have N: "unat (qlen s) = 2 ^ n"
    using n(3) n32 by (simp add: unat_exp32)
  have w: "unat (write s) < 2 ^ n" and r: "unat (read s) < 2 ^ n"
    using assms(2,3) N by (simp_all add: word_less_nat_alt)
  have wnext: "unat ((write s + 1) AND qmask s) = (unat (write s) + 1) mod 2 ^ n"
    using n(4) n32 by (simp add: unat_succ_and_mask)
  have rnext: "unat ((read s + 1) AND qmask s) = (unat (read s) + 1) mod 2 ^ n"
    using n(4) n32 by (simp add: unat_succ_and_mask)
  have full: "(write s + 1) AND qmask s = read s \<longleftrightarrow>
      (unat (write s) + 1) mod 2 ^ n = unat (read s)"
    by (simp only: word_unat_eq_iff wnext)
  have c1: "fst (lq_write s m) = - 1 \<longleftrightarrow>
      (unat (write s) + 1) mod unat (qlen s) = unat (read s)"
    using full by (simp add: lq_write_ret N)
  have c2: "fst (lq_write s m) = - 1 \<longleftrightarrow> lq_items s = unat (qlen s) - 1"
    unfolding c1 lq_items_def N using w r by (rule ring_full_iff)
  have c3: "fst (lq_write s m) \<noteq> - 1 \<longrightarrow>
      lq_write s m =
        (0, s\<lparr>Blq.q := (Blq.q s)(write s := m), write := (write s + 1) AND qmask s\<rparr>) \<and>
      unat ((write s + 1) AND qmask s) = (unat (write s) + 1) mod unat (qlen s)"
  proof (cases "(write s + 1) AND qmask s = read s")
    case True
    then show ?thesis
      by (simp add: lq_write_ret)
  next
    case False
    then have "lq_write s m =
        (0, s\<lparr>Blq.q := (Blq.q s)(write s := m), write := (write s + 1) AND qmask s\<rparr>)"
      by (rule lq_write_ok)
    moreover have "unat ((write s + 1) AND qmask s) = (unat (write s) + 1) mod unat (qlen s)"
      using wnext N by simp
    ultimately show ?thesis
      by blast
  qed
  have c4: "read s = write s \<longleftrightarrow> lq_items s = 0"
    unfolding lq_items_def N using ring_empty_iff [OF w r]
    by (simp only: word_unat_eq_iff)
  have c5: "read s = write s \<longrightarrow> lq_read s = (0, s)"
    by (simp add: lq_read_empty)
  have c6: "read s \<noteq> write s \<longrightarrow>
      lq_read s = (Blq.q s (read s), s\<lparr>read := (read s + 1) AND qmask s\<rparr>) \<and>
      unat ((read s + 1) AND qmask s) = (unat (read s) + 1) mod unat (qlen s)"
    using rnext N by (simp add: lq_read_ok)
  have c7: "Blq.q s (read s) \<noteq> 0 \<longrightarrow> (fst (lq_read s) = 0 \<longleftrightarrow> read s = write s)"
    by (cases "read s = write s") (simp_all add: lq_read_empty lq_read_ok)
  have rmask: "read s \<le> mask n"
    using r n32 by (simp add: word_le_nat_alt mask_eq_decr_exp unat_minus_one unat_exp32)
  have "(read s + 1) AND mask n \<noteq> read s"
    using n(1) n32 rmask by (rule succ_mask_neq)
  then have moved: "read (s\<lparr>read := (read s + 1) AND qmask s\<rparr>) \<noteq> read s"
    using n(4) by simp
  have c8: "snd (lq_read s) = s \<longleftrightarrow> read s = write s"
  proof (cases "read s = write s")
    case True
    then show ?thesis
      by (simp add: lq_read_empty)
  next
    case False
    have "snd (lq_read s) \<noteq> s"
    proof
      assume "snd (lq_read s) = s"
      then have "read (snd (lq_read s)) = read s"
        by simp
      with False moved show False
        by (simp add: lq_read_ok)
    qed
    with False show ?thesis
      by simp
  qed
  from c1 c2 c3 c4 c5 c6 c7 c8 show ?thesis
    by blast
qed

theorem lq_full_empty_boundary_witness:
  "lq_items (zero_Blq\<lparr>qlen := 4, qmask := 3\<rparr>) = 0 \<and>
   fst (lq_write (zero_Blq\<lparr>qlen := 4, qmask := 3\<rparr>) 5) \<noteq> - 1 \<and>
   lq_read (zero_Blq\<lparr>qlen := 4, qmask := 3\<rparr>) = (0, zero_Blq\<lparr>qlen := 4, qmask := 3\<rparr>) \<and>
   lq_items (zero_Blq\<lparr>qlen := 4, qmask := 3, write := 3, Blq.q := \<lambda>_. 9\<rparr>) = 3 \<and>
   fst (lq_write (zero_Blq\<lparr>qlen := 4, qmask := 3, write := 3, Blq.q := \<lambda>_. 9\<rparr>) 5) = - 1 \<and>
   lq_read (zero_Blq\<lparr>qlen := 4, qmask := 3, write := 3, Blq.q := \<lambda>_. 9\<rparr>) =
     (9, zero_Blq\<lparr>qlen := 4, qmask := 3, write := 3, Blq.q := \<lambda>_. 9, read := 1\<rparr>)"
proof -
  define s where "s = zero_Blq\<lparr>qlen := 4, qmask := 3\<rparr>"
  define t where "t = zero_Blq\<lparr>qlen := 4, qmask := 3, write := 3, Blq.q := \<lambda>_. 9\<rparr>"
  have cs: "blq_config s" and ct: "blq_config t"
    by (simp_all add: s_def t_def blq_config_def is_power_of_two_def zero_Blq_def)
  have ws: "write s < qlen s" and rs: "read s < qlen s"
    and wt: "write t < qlen t" and rt: "read t < qlen t"
    by (simp_all add: s_def t_def zero_Blq_def)
  have es: "read s = write s" and i0: "lq_items s = 0"
    by (simp_all add: s_def lq_items_def zero_Blq_def)
  have nt: "read t \<noteq> write t" and i3: "lq_items t = 3" and qt: "unat (qlen t) - 1 = 3"
    by (simp_all add: t_def lq_items_def zero_Blq_def)
  have ft: "Blq.q t 0 = 9" "read t = 0" "qmask t = 3"
    by (simp_all add: t_def zero_Blq_def)
  note a = lq_full_empty_boundary [OF cs ws rs, of 5]
  note b = lq_full_empty_boundary [OF ct wt rt, of 5]
  have s1: "fst (lq_write s 5) \<noteq> - 1"
    using a i0 by (simp add: s_def zero_Blq_def)
  have s2: "lq_read s = (0, s)"
    using a es by blast
  have t1: "fst (lq_write t 5) = - 1"
    using b i3 qt by simp
  have "lq_read t = (Blq.q t (read t), t\<lparr>read := (read t + 1) AND qmask t\<rparr>)"
    using b nt by blast
  then have t2: "lq_read t = (9, t\<lparr>read := 1\<rparr>)"
    by (simp add: ft)
  from i0 s1 s2 i3 t1 t2 show ?thesis
    unfolding s_def t_def by simp
qed

subsection \<open>Failure outcomes leave the queue as it was\<close>

text \<open>
  Claim C9 as stated fails for \<^verbatim>\<open>lq_read\<close> and \<^verbatim>\<open>llq_read\<close>: after a write of the value 0
  to a fresh queue, either call returns 0, the value that reports an empty queue, and has
  moved the published read cursor from 0 to 1.
\<close>

theorem read_zero_payload_moves_cursor_counterexample:
  "fst (lq_read (snd (lq_write (snd (blq_init zero_Blq 4)) 0))) = 0 \<and>
   read (snd (lq_read (snd (lq_write (snd (blq_init zero_Blq 4)) 0)))) = 1 \<and>
   read (snd (lq_write (snd (blq_init zero_Blq 4)) 0)) = 0 \<and>
   fst (llq_read (snd (llq_write (snd (blq_init zero_Blq 16)) 0))) = 0 \<and>
   read (snd (llq_read (snd (llq_write (snd (blq_init zero_Blq 16)) 0)))) = 1 \<and>
   read (snd (llq_write (snd (blq_init zero_Blq 16)) 0)) = 0"
  by (simp add: blq_init_def is_power_of_two_def lq_write_def lq_read_def llq_write_def
      llq_read_def SPSCQ_CACHELINE_SIZE_def sizeof_uintptr_t_def zero_Blq_def Let_def)

text \<open>
  Claim C9, amended: a call of \<^verbatim>\<open>lq_write\<close>, \<^verbatim>\<open>llq_write\<close>, \<^verbatim>\<open>ffq_write\<close> or
  \<^verbatim>\<open>iffq_insert\<close> that returns the full code, a call of \<^verbatim>\<open>ffq_read\<close> or \<^verbatim>\<open>iffq_extract\<close>
  that returns 0, and a call of \<^verbatim>\<open>blq_init\<close> or \<^verbatim>\<open>iffq_init\<close> that returns a negative value
  leave the whole queue struct, slot array included, as it was; the refresh of
  \<^verbatim>\<open>read_shadow\<close> in a failing \<^verbatim>\<open>llq_write\<close> stores the value the field already held. A call
  of \<^verbatim>\<open>lq_read\<close> on a queue whose read cursor equals its write cursor returns 0 and leaves
  the whole struct as it was, and so does a call of \<^verbatim>\<open>llq_read\<close> on a queue whose private
  read cursor equals both \<^verbatim>\<open>write_shadow\<close> and the write cursor. Every other call of
  \<^verbatim>\<open>lq_read\<close> or \<^verbatim>\<open>llq_read\<close> that returns 0 has read the value 0 from the slot at its read
  cursor and has moved the read cursor past it.
\<close>

theorem failure_leaves_queue_unchanged:
  "(fst (lq_write s1 m1) = - 1 \<longrightarrow> snd (lq_write s1 m1) = s1) \<and>
   (fst (llq_write s2 m2) = - 1 \<longrightarrow> snd (llq_write s2 m2) = s2 \<and> read_shadow s2 = read s2) \<and>
   (fst (ffq_write f1 m3) = - 1 \<longrightarrow> snd (ffq_write f1 m3) = f1) \<and>
   (fst (iffq_insert f2 m4) = - ENOBUFS \<longrightarrow> snd (iffq_insert f2 m4) = f2) \<and>
   (read s3 = write s3 \<longrightarrow> lq_read s3 = (0, s3)) \<and>
   (fst (lq_read s3) = 0 \<longrightarrow>
      (read s3 = write s3 \<and> snd (lq_read s3) = s3) \<or>
      (read s3 \<noteq> write s3 \<and> Blq.q s3 (read s3) = 0 \<and>
       snd (lq_read s3) = s3\<lparr>read := (read s3 + 1) AND qmask s3\<rparr>)) \<and>
   (read_priv s4 = write_shadow s4 \<and> read_priv s4 = write s4 \<longrightarrow> llq_read s4 = (0, s4)) \<and>
   (fst (llq_read s4) = 0 \<longrightarrow>
      (read_priv s4 = write_shadow s4 \<and> read_priv s4 = write s4 \<and> snd (llq_read s4) = s4) \<or>
      (\<not> (read_priv s4 = write_shadow s4 \<and> read_priv s4 = write s4) \<and>
       Blq.q s4 (read_priv s4) = 0 \<and>
       read (snd (llq_read s4)) = (read_priv s4 + 1) AND qmask s4)) \<and>
   (fst (ffq_read f3) = 0 \<longrightarrow> snd (ffq_read f3) = f3) \<and>
   (fst (iffq_extract f4) = 0 \<longrightarrow> snd (iffq_extract f4) = f4) \<and>
   (fst (blq_init s5 len) < 0 \<longrightarrow> snd (blq_init s5 len) = s5) \<and>
   (fst (iffq_init f5 entries line_size improved) < 0 \<longrightarrow>
      snd (iffq_init f5 entries line_size improved) = f5)"
proof -
  have c1: "fst (lq_write s1 m1) = - 1 \<longrightarrow> snd (lq_write s1 m1) = s1"
    using lq_write_fail by blast
  have c2: "fst (llq_write s2 m2) = - 1 \<longrightarrow>
      snd (llq_write s2 m2) = s2 \<and> read_shadow s2 = read s2"
    using llq_write_fail by blast
  have c3: "fst (ffq_write f1 m3) = - 1 \<longrightarrow> snd (ffq_write f1 m3) = f1"
    using ffq_write_full by blast
  have c4: "fst (iffq_insert f2 m4) = - ENOBUFS \<longrightarrow> snd (iffq_insert f2 m4) = f2"
    using iffq_insert_full by blast
  have c5: "read s3 = write s3 \<longrightarrow> lq_read s3 = (0, s3)"
    using lq_read_empty by blast
  have c6: "fst (lq_read s3) = 0 \<longrightarrow>
      (read s3 = write s3 \<and> snd (lq_read s3) = s3) \<or>
      (read s3 \<noteq> write s3 \<and> Blq.q s3 (read s3) = 0 \<and>
       snd (lq_read s3) = s3\<lparr>read := (read s3 + 1) AND qmask s3\<rparr>)"
    using lq_read_zero_cases by blast
  have c7: "read_priv s4 = write_shadow s4 \<and> read_priv s4 = write s4 \<longrightarrow>
      llq_read s4 = (0, s4)"
    using llq_read_empty by blast
  have c8: "fst (llq_read s4) = 0 \<longrightarrow>
      (read_priv s4 = write_shadow s4 \<and> read_priv s4 = write s4 \<and> snd (llq_read s4) = s4) \<or>
      (\<not> (read_priv s4 = write_shadow s4 \<and> read_priv s4 = write s4) \<and>
       Blq.q s4 (read_priv s4) = 0 \<and>
       read (snd (llq_read s4)) = (read_priv s4 + 1) AND qmask s4)"
    using llq_read_zero_cases by blast
  have c9: "fst (ffq_read f3) = 0 \<longrightarrow> snd (ffq_read f3) = f3"
    using ffq_read_empty by blast
  have c10: "fst (iffq_extract f4) = 0 \<longrightarrow> snd (iffq_extract f4) = f4"
    using iffq_extract_empty by blast
  have c11: "fst (blq_init s5 len) < 0 \<longrightarrow> snd (blq_init s5 len) = s5"
    using blq_init_reject by blast
  have c12: "fst (iffq_init f5 entries line_size improved) < 0 \<longrightarrow>
      snd (iffq_init f5 entries line_size improved) = f5"
    using iffq_init_reject by blast
  from c1 c2 c3 c4 c5 c6 c7 c8 c9 c10 c11 c12 show ?thesis
    by (intro conjI)
qed

theorem failure_leaves_queue_unchanged_witness:
  "snd (lq_write (zero_Blq\<lparr>qlen := 4, qmask := 3, write := 3\<rparr>) 1) =
     zero_Blq\<lparr>qlen := 4, qmask := 3, write := 3\<rparr> \<and>
   snd (llq_write (zero_Blq\<lparr>qlen := 16, qmask := 15, write := 8\<rparr>) 1) =
     zero_Blq\<lparr>qlen := 16, qmask := 15, write := 8\<rparr> \<and>
   snd (ffq_write (zero_Iffq\<lparr>entry_mask := 3, Iffq.q := \<lambda>_. 9\<rparr>) 1) =
     zero_Iffq\<lparr>entry_mask := 3, Iffq.q := \<lambda>_. 9\<rparr> \<and>
   snd (iffq_insert (zero_Iffq\<lparr>entry_mask := 3, Iffq.q := \<lambda>_. 9\<rparr>) 1) =
     zero_Iffq\<lparr>entry_mask := 3, Iffq.q := \<lambda>_. 9\<rparr> \<and>
   lq_read (snd (blq_init zero_Blq 4)) = (0, snd (blq_init zero_Blq 4)) \<and>
   llq_read (snd (blq_init zero_Blq 16)) = (0, snd (blq_init zero_Blq 16)) \<and>
   snd (ffq_read (zero_Iffq\<lparr>entry_mask := 3\<rparr>)) = zero_Iffq\<lparr>entry_mask := 3\<rparr> \<and>
   snd (iffq_extract (zero_Iffq\<lparr>entry_mask := 3\<rparr>)) = zero_Iffq\<lparr>entry_mask := 3\<rparr> \<and>
   snd (blq_init zero_Blq 3) = zero_Blq \<and>
   snd (iffq_init zero_Iffq 3 64 1) = zero_Iffq"
proof -
  let ?s1 = "zero_Blq\<lparr>qlen := 4, qmask := 3, write := 3\<rparr>"
  let ?s2 = "zero_Blq\<lparr>qlen := 16, qmask := 15, write := 8\<rparr>"
  let ?f1 = "zero_Iffq\<lparr>entry_mask := 3, Iffq.q := \<lambda>_. 9\<rparr>"
  let ?s3 = "snd (blq_init zero_Blq 4)"
  let ?s4 = "snd (blq_init zero_Blq 16)"
  let ?f3 = "zero_Iffq\<lparr>entry_mask := 3\<rparr>"
  have h1: "fst (lq_write ?s1 1) = - 1"
    by (simp add: lq_write_def zero_Blq_def Let_def)
  have h2: "fst (llq_write ?s2 1) = - 1"
    by (simp add: llq_write_ret zero_Blq_def)
  have h3: "fst (ffq_write ?f1 1) = - 1"
    by (simp add: ffq_write_ret zero_Iffq_def)
  have h4: "fst (iffq_insert ?f1 1) = - ENOBUFS"
    by (simp add: iffq_insert_ret zero_Iffq_def)
  have h5: "read ?s3 = write ?s3"
    by (simp add: blq_init_def is_power_of_two_def zero_Blq_def)
  have h6: "read_priv ?s4 = write_shadow ?s4 \<and> read_priv ?s4 = write ?s4"
    by (simp add: blq_init_def is_power_of_two_def zero_Blq_def)
  have h7: "fst (ffq_read ?f3) = 0"
    by (simp add: ffq_read_def zero_Iffq_def Let_def)
  have h8: "fst (iffq_extract ?f3) = 0"
    by (simp add: iffq_extract_def zero_Iffq_def Let_def)
  have h9: "fst (blq_init zero_Blq 3) < 0"
    by (simp add: blq_init_def is_power_of_two_def)
  have h10: "fst (iffq_init zero_Iffq 3 64 1) < 0"
    by (simp add: iffq_init_invalid is_power_of_two_def EINVAL_def)
  note t = failure_leaves_queue_unchanged
    [of ?s1 1 ?s2 1 ?f1 1 ?f1 1 ?s3 ?s4 ?f3 ?f3 zero_Blq 3 zero_Iffq 3 64 1]
  from t h1 have g1: "snd (lq_write ?s1 1) = ?s1"
    by blast
  from t h2 have g2: "snd (llq_write ?s2 1) = ?s2"
    by blast
  from t h3 have g3: "snd (ffq_write ?f1 1) = ?f1"
    by blast
  from t h4 have g4: "snd (iffq_insert ?f1 1) = ?f1"
    by blast
  from t h5 have g5: "lq_read ?s3 = (0, ?s3)"
    by blast
  from t h6 have g6: "llq_read ?s4 = (0, ?s4)"
    by blast
  from t h7 have g7: "snd (ffq_read ?f3) = ?f3"
    by blast
  from t h8 have g8: "snd (iffq_extract ?f3) = ?f3"
    by blast
  from t h9 have g9: "snd (blq_init zero_Blq 3) = zero_Blq"
    by blast
  from t h10 have g10: "snd (iffq_init zero_Iffq 3 64 1) = zero_Iffq"
    by blast
  from g1 g2 g3 g4 g5 g6 g7 g8 g9 g10 show ?thesis
    by (intro conjI)
qed

subsection \<open>Round trip on the plain Lamport queue\<close>

text \<open>
  Claim C7: on an empty configured queue (read cursor equal to write cursor, inside the
  ring), for every \<open>N\<close> with \<open>0 < N < capacity - 1\<close>, the \<open>N\<close> calls of \<^verbatim>\<open>lq_write\<close> with the
  values \<open>1, ..., N\<close> all return 0, and the following \<open>N\<close> calls of \<^verbatim>\<open>lq_read\<close> return
  \<open>1, ..., N\<close> in this order.
\<close>

theorem lq_round_trip:
  assumes "blq_config s" and "read s = write s" and "write s < qlen s"
    and "0 < N" and "N < unat (qlen s) - 1"
  shows "fst (lq_write_all s (map word_of_nat [1..<Suc N])) = replicate N 0 \<and>
         fst (lq_read_n (snd (lq_write_all s (map word_of_nat [1..<Suc N]))) N) =
           map word_of_nat [1..<Suc N]"
proof -
  define vs :: "64 word list" where "vs = map word_of_nat [1..<Suc N]"
  have len: "length vs = N"
    by (simp add: vs_def)
  have inv: "lq_inv s"
    using assms(1-3) by (simp add: lq_inv_def)
  have empty: "lq_items s = 0" "lq_list s = []"
    using inv assms(2) by (rule lq_empty_list)+
  have "lq_items s + length vs \<le> unat (qlen s) - 1"
    using empty len assms(5) by simp
  note wr = lq_write_all_list [OF inv this]
  define s1 where "s1 = snd (lq_write_all s vs)"
  have inv1: "lq_inv s1" and k1: "lq_items s1 = N" and l1: "lq_list s1 = vs"
    using wr empty len by (simp_all add: s1_def)
  have "N \<le> lq_items s1"
    using k1 by simp
  note rd = lq_read_n_list [OF inv1 this]
  have "fst (lq_read_n s1 N) = vs"
    using rd l1 len by simp
  moreover have "fst (lq_write_all s vs) = replicate N 0"
    using wr len by simp
  ultimately show ?thesis
    by (simp add: s1_def vs_def)
qed

theorem lq_round_trip_witness:
  "fst (lq_write_all (zero_Blq\<lparr>qlen := 8, qmask := 7\<rparr>) [1, 2, 3]) = [0, 0, 0] \<and>
   fst (lq_read_n (snd (lq_write_all (zero_Blq\<lparr>qlen := 8, qmask := 7\<rparr>) [1, 2, 3])) 3) =
     [1, 2, 3]"
proof -
  let ?s = "zero_Blq\<lparr>qlen := 8, qmask := 7\<rparr>"
  have c: "blq_config ?s"
    by (simp add: blq_config_def is_power_of_two_def zero_Blq_def)
  have e: "read ?s = write ?s" and w: "write ?s < qlen ?s"
    by (simp_all add: zero_Blq_def)
  have n: "(0::nat) < 3" "3 < unat (qlen ?s) - 1"
    by (simp_all add: zero_Blq_def)
  have l: "map word_of_nat [1..<Suc 3] = [1, 2, 3 :: 64 word]"
    by (simp add: upt_rec)
  have rep: "replicate 3 (0::int) = [0, 0, 0]"
    by (simp add: numeral_3_eq_3)
  from lq_round_trip [OF c e w n] show ?thesis
    unfolding l rep .
qed

subsection \<open>Batched and plain writes\<close>

text \<open>
  Claim C1 as stated fails for the published write cursor. The two-phase calls keep
  free-running cursors and mask them at each slot access, while \<^verbatim>\<open>lq_write\<close> stores the
  masked cursor. In the 16-slot queue whose cursors all stand at 8 (the state after a first
  batch of eight items was written and read through the two-phase calls), \<^verbatim>\<open>blq_wspace\<close>
  reports 8 free slots and eight \<^verbatim>\<open>lq_write\<close> calls succeed; the batch publishes the write
  cursor 16, the plain calls leave it at 0.
\<close>

theorem batch_write_cursor_counterexample:
  "fst (blq_wspace (zero_Blq\<lparr>write_priv := 8, read_shadow := 8, write := 8, read_priv := 8,
          write_shadow := 8, read := 8, qlen := 16, qmask := 15\<rparr>) 8) = 8 \<and>
   fst (lq_write_all (zero_Blq\<lparr>write_priv := 8, read_shadow := 8, write := 8, read_priv := 8,
          write_shadow := 8, read := 8, qlen := 16, qmask := 15\<rparr>) [1, 2, 3, 4, 5, 6, 7, 8]) =
     [0, 0, 0, 0, 0, 0, 0, 0] \<and>
   write (blq_write_publish (blq_write_local_all
     (snd (blq_wspace (zero_Blq\<lparr>write_priv := 8, read_shadow := 8, write := 8, read_priv := 8,
          write_shadow := 8, read := 8, qlen := 16, qmask := 15\<rparr>) 8))
     [1, 2, 3, 4, 5, 6, 7, 8])) = 16 \<and>
   write (snd (lq_write_all (zero_Blq\<lparr>write_priv := 8, read_shadow := 8, write := 8,
          read_priv := 8, write_shadow := 8, read := 8, qlen := 16, qmask := 15\<rparr>)
     [1, 2, 3, 4, 5, 6, 7, 8])) = 0"
  by (simp add: blq_wspace_def blq_write_local_def blq_write_publish_def lq_write_def
      SPSCQ_CACHELINE_SIZE_def sizeof_uintptr_t_def zero_Blq_def Let_def)

text \<open>
  Claim C1, amended: in a configured queue with \<^verbatim>\<open>write_priv\<close> equal to \<^verbatim>\<open>write\<close> and below
  the capacity, in which the \<open>k\<close> calls of \<^verbatim>\<open>lq_write\<close> with \<open>v1, ..., vk\<close> all succeed,
  \<^verbatim>\<open>blq_wspace\<close> followed by \<open>k\<close> calls of \<^verbatim>\<open>blq_write_local\<close> with the same values and one
  \<^verbatim>\<open>blq_write_publish\<close> leaves the same slot array as the plain calls, and a published
  write cursor that is \<open>write + k\<close> and equals the cursor left by the plain calls after
  masking with \<^verbatim>\<open>qmask\<close>, that is modulo the capacity. The two cursors are identical when
  \<open>write + k\<close> stays below the capacity.
\<close>

theorem batch_plain_equivalence:
  assumes "blq_config s" and "write s < qlen s" and "write_priv s = write s"
    and "fst (lq_write_all s vs) = replicate (length vs) 0"
  shows "Blq.q (blq_write_publish (blq_write_local_all (snd (blq_wspace s needed)) vs)) =
           Blq.q (snd (lq_write_all s vs)) \<and>
         write (blq_write_publish (blq_write_local_all (snd (blq_wspace s needed)) vs)) AND qmask s =
           write (snd (lq_write_all s vs)) \<and>
         write (blq_write_publish (blq_write_local_all (snd (blq_wspace s needed)) vs)) =
           write s + word_of_nat (length vs) \<and>
         (unat (write s) + length vs < unat (qlen s) \<longrightarrow>
           write (blq_write_publish (blq_write_local_all (snd (blq_wspace s needed)) vs)) =
             write (snd (lq_write_all s vs)))"
proof -
  from assms(1) obtain n where n: "1 \<le> n" "n < 31" "qlen s = 2 ^ n" "qmask s = mask n"
    using blq_config_exp by blast
  have n32: "n < 32"
    using n(2) by simp
  have N: "unat (qlen s) = 2 ^ n"
    using n(3) n32 by (simp add: unat_exp32)
  define sb where "sb = snd (blq_wspace s needed)"
  have fr: "Blq.q sb = Blq.q s" "qmask sb = mask n" "write_priv sb = write s"
    using blq_wspace_frame [of s needed] n(4) assms(3) by (simp_all add: sb_def)
  have wlt: "unat (write s) < 2 ^ n"
    using assms(2) N by (simp add: word_less_nat_alt)
  have "unat (write s AND mask n) = unat (write s)"
    using wlt by (simp add: unat_and_mask)
  then have "write s AND mask n = write s"
    by (simp only: word_unat_eq_iff)
  then have w0: "write_priv sb AND mask n = write s"
    using fr by simp
  note sim = blq_write_local_all_sim [OF n32 fr(1) fr(2) n(4) w0 assms(4)]
  define sf where "sf = blq_write_publish (blq_write_local_all sb vs)"
  have pub: "Blq.q sf = Blq.q (blq_write_local_all sb vs)"
    "write sf = write_priv (blq_write_local_all sb vs)"
    by (simp_all add: sf_def blq_write_publish_def)
  have c1: "Blq.q sf = Blq.q (snd (lq_write_all s vs))"
    unfolding pub using sim by blast
  have c2: "write sf AND qmask s = write (snd (lq_write_all s vs))"
    unfolding pub n(4) using sim by blast
  have "write_priv (blq_write_local_all sb vs) = write_priv sb + word_of_nat (length vs)"
    using sim by blast
  then have c3: "write sf = write s + word_of_nat (length vs)"
    unfolding pub fr(3) .
  have c4: "write sf = write (snd (lq_write_all s vs))"
    if "unat (write s) + length vs < unat (qlen s)"
  proof -
    have q32: "unat (qlen s) < 2 ^ 32"
      using unsigned_less [of "qlen s", where 'a = nat] by simp
    have len: "length vs < 2 ^ 32"
      using that q32 by simp
    have "unat (word_of_nat (length vs) :: 32 word) = length vs"
      using len by (simp add: unat_of_nat)
    moreover have "unat (write s) + length vs < 2 ^ 32"
      using that q32 by simp
    ultimately have "unat (write sf) = unat (write s) + length vs"
      unfolding c3 by (simp add: unat_add_lem [THEN iffD1])
    then have "unat (write sf AND mask n) = unat (write sf)"
      using that N by (simp add: unat_and_mask)
    then have "write sf AND mask n = write sf"
      by (simp only: word_unat_eq_iff)
    then show ?thesis
      using c2 n(4) by simp
  qed
  from c1 c2 c3 c4 show ?thesis
    unfolding sf_def sb_def by blast
qed

theorem batch_plain_equivalence_witness:
  "Blq.q (blq_write_publish (blq_write_local_all
      (snd (blq_wspace (zero_Blq\<lparr>qlen := 16, qmask := 15\<rparr>) 3)) [1, 2, 3])) =
     Blq.q (snd (lq_write_all (zero_Blq\<lparr>qlen := 16, qmask := 15\<rparr>) [1, 2, 3])) \<and>
   write (blq_write_publish (blq_write_local_all
      (snd (blq_wspace (zero_Blq\<lparr>qlen := 16, qmask := 15\<rparr>) 3)) [1, 2, 3])) =
     write (snd (lq_write_all (zero_Blq\<lparr>qlen := 16, qmask := 15\<rparr>) [1, 2, 3]))"
proof -
  let ?s = "zero_Blq\<lparr>qlen := 16, qmask := 15\<rparr>"
  have c: "blq_config ?s"
    by (simp add: blq_config_def is_power_of_two_def zero_Blq_def)
  have w: "write ?s < qlen ?s" and p: "write_priv ?s = write ?s"
    by (simp_all add: zero_Blq_def)
  have ok: "fst (lq_write_all ?s [1, 2, 3]) = replicate (length [1, 2, 3 :: 64 word]) 0"
    by (simp add: lq_write_def zero_Blq_def Let_def numeral_3_eq_3)
  have fit: "unat (write ?s) + length [1, 2, 3 :: 64 word] < unat (qlen ?s)"
    by (simp add: zero_Blq_def)
  from batch_plain_equivalence [OF c w p ok, of 3] fit show ?thesis
    by blast
qed

subsection \<open>Deferred clearing\<close>

text \<open>
  Claim C6: \<^verbatim>\<open>iffq_extract\<close> returns the slot at the read cursor and never writes the slot
  array; on a non-sentinel slot it changes nothing but \<^verbatim>\<open>cons_read\<close>, which it advances by
  one, and on a sentinel slot it changes nothing. \<^verbatim>\<open>iffq_clear\<close> sets \<^verbatim>\<open>cons_clear\<close> to
  \<open>s = (cons_read - line_entries) AND line_mask\<close> and sets to 0 exactly the slots addressed by
  the cursor positions from \<^verbatim>\<open>cons_clear\<close> up to, but excluding, \<open>s\<close>; every other slot and
  every other field is left as it was. When \<^verbatim>\<open>line_entries\<close> is a power of two and
  \<^verbatim>\<open>line_mask\<close> its complement mask, as \<^verbatim>\<open>iffq_init\<close> sets them, \<open>s\<close> is
  \<open>cons_read - line_entries\<close> rounded down to a multiple of \<^verbatim>\<open>line_entries\<close>. The slot of a
  position at or beyond \<open>s\<close>, less than one lap of the ring away from \<^verbatim>\<open>cons_clear\<close>, is not
  touched.
\<close>

theorem deferred_clearing:
  "fst (iffq_extract ffq) = Iffq.q ffq (cons_read ffq AND entry_mask ffq) \<and>
   Iffq.q (snd (iffq_extract ffq)) = Iffq.q ffq \<and>
   (fst (iffq_extract ffq) \<noteq> 0 \<longrightarrow>
      snd (iffq_extract ffq) = ffq\<lparr>cons_read := cons_read ffq + 1\<rparr>) \<and>
   (fst (iffq_extract ffq) = 0 \<longrightarrow> snd (iffq_extract ffq) = ffq) \<and>
   iffq_clear ffq =
     ffq\<lparr>Iffq.q := (\<lambda>i. if i \<in> (\<lambda>j. (cons_clear ffq + word_of_nat j) AND entry_mask ffq) `
               {..<unat (((cons_read ffq - line_entries ffq) AND line_mask ffq) - cons_clear ffq)}
             then 0 else Iffq.q ffq i),
         cons_clear := (cons_read ffq - line_entries ffq) AND line_mask ffq\<rparr> \<and>
   (line_entries ffq = 2 ^ k \<and> k < 32 \<and> line_mask ffq = NOT (line_entries ffq - 1) \<longrightarrow>
      unat ((cons_read ffq - line_entries ffq) AND line_mask ffq) =
        unat (cons_read ffq - line_entries ffq) div 2 ^ k * 2 ^ k) \<and>
   (a < 32 \<and> entry_mask ffq = mask a \<and>
    unat (((cons_read ffq - line_entries ffq) AND line_mask ffq) - cons_clear ffq) \<le> y \<and>
    y < 2 ^ a \<longrightarrow>
      Iffq.q (iffq_clear ffq) ((cons_clear ffq + word_of_nat y) AND entry_mask ffq) =
        Iffq.q ffq ((cons_clear ffq + word_of_nat y) AND entry_mask ffq))"
proof -
  define s where "s = (cons_read ffq - line_entries ffq) AND line_mask ffq"
  have clr: "iffq_clear ffq =
     ffq\<lparr>Iffq.q := (\<lambda>i. if i \<in> (\<lambda>j. (cons_clear ffq + word_of_nat j) AND entry_mask ffq) `
               {..<unat (s - cons_clear ffq)}
             then 0 else Iffq.q ffq i),
         cons_clear := s\<rparr>"
    unfolding iffq_clear_def s_def by (rule iffq_clear_loop_eq)
  have round: "unat s = unat (cons_read ffq - line_entries ffq) div 2 ^ k * 2 ^ k"
    if "line_entries ffq = 2 ^ k \<and> k < 32 \<and> line_mask ffq = NOT (line_entries ffq - 1)"
  proof -
    from that have "line_mask ffq = NOT (mask k)"
      by (simp add: mask_eq_decr_exp)
    then show ?thesis
      unfolding s_def by (simp only: and_not_mask_round)
  qed
  have beyond: "Iffq.q (iffq_clear ffq) ((cons_clear ffq + word_of_nat y) AND entry_mask ffq) =
        Iffq.q ffq ((cons_clear ffq + word_of_nat y) AND entry_mask ffq)"
    if "a < 32 \<and> entry_mask ffq = mask a \<and> unat (s - cons_clear ffq) \<le> y \<and> y < 2 ^ a"
  proof -
    from that have h: "a < 32" "entry_mask ffq = mask a" "unat (s - cons_clear ffq) \<le> y"
      "y < 2 ^ a"
      by blast+
    have "(cons_clear ffq + word_of_nat y) AND entry_mask ffq \<notin>
         (\<lambda>j. (cons_clear ffq + word_of_nat j) AND entry_mask ffq) ` {..<unat (s - cons_clear ffq)}"
      using h by (rule iffq_clear_beyond)
    then show ?thesis
      unfolding clr by simp
  qed
  have ext: "fst (iffq_extract ffq) = Iffq.q ffq (cons_read ffq AND entry_mask ffq)"
    "Iffq.q (snd (iffq_extract ffq)) = Iffq.q ffq"
    "fst (iffq_extract ffq) \<noteq> 0 \<longrightarrow>
      snd (iffq_extract ffq) = ffq\<lparr>cons_read := cons_read ffq + 1\<rparr>"
    "fst (iffq_extract ffq) = 0 \<longrightarrow> snd (iffq_extract ffq) = ffq"
    by (simp_all add: iffq_extract_eq)
  from ext clr round beyond show ?thesis
    unfolding s_def by blast
qed

theorem deferred_clearing_witness:
  "fst (iffq_extract (zero_Iffq\<lparr>entry_mask := 31, line_entries := 8, line_mask := NOT 7,
          cons_read := 20, Iffq.q := \<lambda>_. 5\<rparr>)) = 5 \<and>
   snd (iffq_extract (zero_Iffq\<lparr>entry_mask := 31, line_entries := 8, line_mask := NOT 7,
          cons_read := 20, Iffq.q := \<lambda>_. 5\<rparr>)) =
     zero_Iffq\<lparr>entry_mask := 31, line_entries := 8, line_mask := NOT 7,
          cons_read := 21, Iffq.q := \<lambda>_. 5\<rparr> \<and>
   cons_clear (iffq_clear (zero_Iffq\<lparr>entry_mask := 31, line_entries := 8, line_mask := NOT 7,
          cons_read := 20, Iffq.q := \<lambda>_. 5\<rparr>)) = 8 \<and>
   Iffq.q (iffq_clear (zero_Iffq\<lparr>entry_mask := 31, line_entries := 8, line_mask := NOT 7,
          cons_read := 20, Iffq.q := \<lambda>_. 5\<rparr>)) 7 = 0 \<and>
   Iffq.q (iffq_clear (zero_Iffq\<lparr>entry_mask := 31, line_entries := 8, line_mask := NOT 7,
          cons_read := 20, Iffq.q := \<lambda>_. 5\<rparr>)) 8 = 5"
proof -
  define st where "st = zero_Iffq\<lparr>entry_mask := 31, line_entries := 8, line_mask := NOT 7,
          cons_read := 20, Iffq.q := \<lambda>_. 5\<rparr>"
  have f: "cons_read st = 20" "line_entries st = 8" "line_mask st = NOT 7" "cons_clear st = 0"
    "entry_mask st = 31" "Iffq.q st = (\<lambda>_. 5)"
    by (simp_all add: st_def zero_Iffq_def)
  have s: "(cons_read st - line_entries st) AND line_mask st = 8"
    by (simp add: f)
  have hk: "line_entries st = 2 ^ 3 \<and> (3::nat) < 32 \<and> line_mask st = NOT (line_entries st - 1)"
    by (simp add: f)
  have ha: "(5::nat) < 32 \<and> entry_mask st = mask 5 \<and>
      unat (((cons_read st - line_entries st) AND line_mask st) - cons_clear st) \<le> 8 \<and>
      (8::nat) < 2 ^ 5"
    by (simp add: s f mask_eq_decr_exp)
  note t = deferred_clearing [of st 3 5 8]
  have e1: "fst (iffq_extract st) = 5"
    using t by (simp add: f)
  then have e2: "snd (iffq_extract st) = st\<lparr>cons_read := 21\<rparr>"
    using t by (simp add: f)
  have c: "iffq_clear st =
      st\<lparr>Iffq.q := (\<lambda>i. if i \<in> (\<lambda>j. word_of_nat j AND 31) ` {..<8} then 0 else Iffq.q st i),
         cons_clear := 8\<rparr>"
    using t by (simp add: s f(1-5))
  have "(7::32 word) \<in> (\<lambda>j. word_of_nat j AND 31) ` {..<8}"
    by (rule image_eqI [where x = 7]) simp_all
  then have c7: "Iffq.q (iffq_clear st) 7 = 0"
    unfolding c by simp
  have "Iffq.q (iffq_clear st) ((cons_clear st + word_of_nat 8) AND entry_mask st) =
      Iffq.q st ((cons_clear st + word_of_nat 8) AND entry_mask st)"
    using t ha by blast
  then have c8: "Iffq.q (iffq_clear st) 8 = 5"
    by (simp add: f)
  have cc: "cons_clear (iffq_clear st) = 8"
    unfolding c by simp
  have "st\<lparr>cons_read := 21\<rparr> = zero_Iffq\<lparr>entry_mask := 31, line_entries := 8, line_mask := NOT 7,
          cons_read := 21, Iffq.q := \<lambda>_. 5\<rparr>"
    by (simp add: st_def)
  with e1 e2 cc c7 c8 show ?thesis
    unfolding st_def by simp
qed

subsection \<open>Batched local insert\<close>

text \<open>
  Claim C8 as stated fails for the size of the side buffer: \<^verbatim>\<open>prod_cache\<close> has
  \<^verbatim>\<open>IFFQ_PROD_CACHE_ENTRIES\<close> = 256 slots whatever the line size. On a queue initialised with
  64-byte lines, where a line holds 8 slots, nine values are staged inside the buffer and
  \<^verbatim>\<open>iffq_insert_publish\<close> writes all nine, moving \<^verbatim>\<open>prod_write\<close> from 8 to 17.
\<close>

theorem prod_cache_capacity_counterexample:
  "line_entries (snd (iffq_init zero_Iffq 1024 64 1)) = 8 \<and>
   map_option prod_cache_write
     (iffq_insert_local_all (snd (iffq_init zero_Iffq 1024 64 1)) [1, 2, 3, 4, 5, 6, 7, 8, 9]) =
     Some 9 \<and>
   map_option prod_write
     (Option.bind
       (iffq_insert_local_all (snd (iffq_init zero_Iffq 1024 64 1)) [1, 2, 3, 4, 5, 6, 7, 8, 9])
       iffq_insert_publish) = Some 17"
  by (simp add: iffq_init_def iffq_init_fill.simps is_power_of_two_def sizeof_uintptr_t_def
      zero_Iffq_def Let_def iffq_insert_local_def IFFQ_PROD_CACHE_ENTRIES_def
      iffq_insert_publish_def iffq_insert_publish_loop.simps)

text \<open>
  Claim C8, amended: \<^verbatim>\<open>iffq_insert_local\<close> stages values into a side buffer of
  \<^verbatim>\<open>IFFQ_PROD_CACHE_ENTRIES\<close> = 256 slots, independent of the line size, without a bounds
  check of its own. Starting with an empty buffer, any batch of at most 256 values is
  staged in order at the indices \<open>0, 1, ...\<close> and leaves ring and \<^verbatim>\<open>prod_write\<close> untouched; a
  further call stays inside the buffer unless 256 values are staged. \<^verbatim>\<open>iffq_insert_publish\<close>
  then writes the staged values in staging order, the \<open>j\<close>-th at the slot of position
  \<open>prod_write + j\<close>, advances \<^verbatim>\<open>prod_write\<close> by the number of staged values and resets the
  staging count to zero. When the batch is no longer than the ring, the ring holds every
  staged value at its position afterwards.
\<close>

theorem iffq_batched_insert:
  assumes "prod_cache_write ffq = 0" and "length vs \<le> IFFQ_PROD_CACHE_ENTRIES"
  shows "\<exists>ffq1 ffq2.
           iffq_insert_local_all ffq vs = Some ffq1 \<and>
           prod_cache_write ffq1 = word_of_nat (length vs) \<and>
           Iffq.q ffq1 = Iffq.q ffq \<and> prod_write ffq1 = prod_write ffq \<and>
           (\<forall>i<length vs. prod_cache ffq1 (word_of_nat i) = vs ! i) \<and>
           (iffq_insert_local ffq1 m = None \<longleftrightarrow> length vs = IFFQ_PROD_CACHE_ENTRIES) \<and>
           iffq_insert_publish ffq1 = Some ffq2 \<and>
           prod_write ffq2 = prod_write ffq + word_of_nat (length vs) \<and>
           prod_cache_write ffq2 = 0 \<and>
           Iffq.q ffq2 =
             fold (\<lambda>j q. q((prod_write ffq + word_of_nat j) AND entry_mask ffq := vs ! j))
               [0..<length vs] (Iffq.q ffq) \<and>
           (\<forall>a. a < 32 \<and> entry_mask ffq = mask a \<and> length vs \<le> 2 ^ a \<longrightarrow>
              (\<forall>i<length vs.
                 Iffq.q ffq2 ((prod_write ffq + word_of_nat i) AND entry_mask ffq) = vs ! i))"
proof -
  have w0: "prod_cache_write ffq = word_of_nat 0"
    using assms(1) by simp
  have "0 + length vs \<le> IFFQ_PROD_CACHE_ENTRIES"
    using assms(2) by simp
  from iffq_insert_local_all_staged [OF w0 this] obtain pc where
    all: "iffq_insert_local_all ffq vs =
           Some (ffq\<lparr>prod_cache := pc, prod_cache_write := word_of_nat (length vs)\<rparr>)"
    and staged: "\<forall>i<length vs. pc (word_of_nat i) = vs ! i"
    by auto
  define ffq1 where "ffq1 = ffq\<lparr>prod_cache := pc, prod_cache_write := word_of_nat (length vs)\<rparr>"
  have f1: "prod_cache_write ffq1 = word_of_nat (length vs)" "Iffq.q ffq1 = Iffq.q ffq"
    "prod_write ffq1 = prod_write ffq" "prod_cache ffq1 = pc" "entry_mask ffq1 = entry_mask ffq"
    by (simp_all add: ffq1_def)
  have len: "length vs \<le> 256"
    using assms(2) by (simp add: IFFQ_PROD_CACHE_ENTRIES_def)
  have un: "unat (prod_cache_write ffq1) = length vs"
    using f1 len by (simp add: unat_of_nat_small)
  have over: "iffq_insert_local ffq1 m = None \<longleftrightarrow> length vs = IFFQ_PROD_CACHE_ENTRIES"
    using un assms(2) by (auto simp: iffq_insert_local_overflow)
  have "(0::32 word) \<le> prod_cache_write ffq1"
    by simp
  moreover have "unat (prod_cache_write ffq1) \<le> IFFQ_PROD_CACHE_ENTRIES"
    using un assms(2) by simp
  ultimately have loop: "iffq_insert_publish_loop ffq1 0 =
     Some (ffq1\<lparr>Iffq.q :=
                 fold (\<lambda>j q. q((prod_write ffq1 - 0 + word_of_nat j) AND entry_mask ffq1 :=
                                 prod_cache ffq1 (word_of_nat j)))
                   [unat (0::32 word)..<unat (prod_cache_write ffq1)] (Iffq.q ffq1),
               prod_write := prod_write ffq1 - 0 + prod_cache_write ffq1\<rparr>)"
    by (rule iffq_insert_publish_loop_eq)
  define Q where "Q = fold (\<lambda>j q. q((prod_write ffq + word_of_nat j) AND entry_mask ffq := vs ! j))
               [0..<length vs] (Iffq.q ffq)"
  have "fold (\<lambda>j q. q((prod_write ffq1 - 0 + word_of_nat j) AND entry_mask ffq1 :=
                                 prod_cache ffq1 (word_of_nat j)))
                   [unat (0::32 word)..<unat (prod_cache_write ffq1)] (Iffq.q ffq1) = Q"
    unfolding Q_def un f1(2-) using staged by (intro fold_cong) simp_all
  with loop have loop': "iffq_insert_publish_loop ffq1 0 =
      Some (ffq1\<lparr>Iffq.q := Q, prod_write := prod_write ffq + word_of_nat (length vs)\<rparr>)"
    using f1 by simp
  define ffq2 where
    "ffq2 = ffq1\<lparr>Iffq.q := Q, prod_write := prod_write ffq + word_of_nat (length vs),
                  prod_cache_write := 0\<rparr>"
  have pub: "iffq_insert_publish ffq1 = Some ffq2"
    by (simp add: iffq_insert_publish_def loop' ffq2_def)
  have f2: "prod_write ffq2 = prod_write ffq + word_of_nat (length vs)"
    "prod_cache_write ffq2 = 0" "Iffq.q ffq2 = Q"
    by (simp_all add: ffq2_def)
  have ring: "Iffq.q ffq2 ((prod_write ffq + word_of_nat i) AND entry_mask ffq) = vs ! i"
    if h: "a < 32 \<and> entry_mask ffq = mask a \<and> length vs \<le> 2 ^ a" and i: "i < length vs"
    for a i
  proof -
    from h have a: "a < 32" and m: "entry_mask ffq = mask a" and n: "length vs \<le> 2 ^ a"
      by blast+
    have "inj_on (\<lambda>j. (prod_write ffq + word_of_nat j) AND mask a) {..<length vs}"
      using a n by (rule ring_positions_inj)
    from fold_upd_distinct [OF this i, of "\<lambda>j. vs ! j" "Iffq.q ffq"]
    show ?thesis
      by (simp add: f2 Q_def m)
  qed
  have a1: "iffq_insert_local_all ffq vs = Some ffq1"
    using all by (simp add: ffq1_def)
  have st1: "\<forall>i<length vs. prod_cache ffq1 (word_of_nat i) = vs ! i"
    using staged f1 by simp
  have q2: "Iffq.q ffq2 =
      fold (\<lambda>j q. q((prod_write ffq + word_of_nat j) AND entry_mask ffq := vs ! j))
        [0..<length vs] (Iffq.q ffq)"
    using f2 by (simp add: Q_def)
  have ring': "\<forall>a. a < 32 \<and> entry_mask ffq = mask a \<and> length vs \<le> 2 ^ a \<longrightarrow>
      (\<forall>i<length vs.
         Iffq.q ffq2 ((prod_write ffq + word_of_nat i) AND entry_mask ffq) = vs ! i)"
    using ring by blast
  show ?thesis
    by (intro exI [of _ ffq1] exI [of _ ffq2] conjI a1 f1(1-3) st1 over pub f2(1,2) q2 ring')
qed

theorem iffq_batched_insert_witness:
  "\<exists>ffq1 ffq2.
     iffq_insert_local_all (zero_Iffq\<lparr>entry_mask := 3, prod_write := 2\<rparr>) [7, 8, 9] = Some ffq1 \<and>
     prod_cache_write ffq1 = 3 \<and>
     iffq_insert_publish ffq1 = Some ffq2 \<and>
     prod_write ffq2 = 5 \<and> prod_cache_write ffq2 = 0 \<and>
     Iffq.q ffq2 2 = 7 \<and> Iffq.q ffq2 3 = 8 \<and> Iffq.q ffq2 0 = 9"
proof -
  define st where "st = zero_Iffq\<lparr>entry_mask := 3, prod_write := 2\<rparr>"
  have f: "prod_cache_write st = 0" "entry_mask st = 3" "prod_write st = 2"
    by (simp_all add: st_def zero_Iffq_def)
  have n: "length [7, 8, 9 :: 64 word] \<le> IFFQ_PROD_CACHE_ENTRIES"
    by (simp add: IFFQ_PROD_CACHE_ENTRIES_def)
  from iffq_batched_insert [OF f(1) n, of 0] obtain ffq1 ffq2 where
    a: "iffq_insert_local_all st [7, 8, 9] = Some ffq1"
    and b: "prod_cache_write ffq1 = word_of_nat (length [7, 8, 9 :: 64 word])"
    and c: "iffq_insert_publish ffq1 = Some ffq2"
    and d: "prod_write ffq2 = prod_write st + word_of_nat (length [7, 8, 9 :: 64 word])"
    and e: "prod_cache_write ffq2 = 0"
    and r: "\<forall>a. a < 32 \<and> entry_mask st = mask a \<and> length [7, 8, 9 :: 64 word] \<le> 2 ^ a \<longrightarrow>
              (\<forall>i<length [7, 8, 9 :: 64 word].
                 Iffq.q ffq2 ((prod_write st + word_of_nat i) AND entry_mask st) = [7, 8, 9] ! i)"
    by blast
  have "(2::nat) < 32 \<and> entry_mask st = mask 2 \<and> length [7, 8, 9 :: 64 word] \<le> 2 ^ 2"
    by (simp add: f mask_eq_decr_exp)
  with r have slots: "\<forall>i<length [7, 8, 9 :: 64 word].
      Iffq.q ffq2 ((prod_write st + word_of_nat i) AND entry_mask st) = [7, 8, 9] ! i"
    by blast
  have sl: "Iffq.q ffq2 ((prod_write st + word_of_nat i) AND entry_mask st) = [7, 8, 9] ! i"
    if "i < 3" for i
    using slots that by simp
  have s0: "Iffq.q ffq2 2 = 7"
    using sl [of 0] by (simp add: f)
  have s1: "Iffq.q ffq2 3 = 8"
    using sl [of 1] by (simp add: f)
  have s2: "Iffq.q ffq2 0 = 9"
    using sl [of 2] by (simp add: f)
  have b': "prod_cache_write ffq1 = 3" and d': "prod_write ffq2 = 5"
    using b d by (simp_all add: f)
  show ?thesis
    using a b' c d' e s0 s1 s2 unfolding st_def by blast
qed

subsection \<open>The line of slots withheld by the two-phase calls\<close>

text \<open>
  Claim C10: in every queue reached under the protocol of the two-phase calls,
  \<^verbatim>\<open>blq_wspace\<close> returns at most the capacity less one line of slots
  (\<^verbatim>\<open>SPSCQ_CACHELINE_SIZE / sizeof(uintptr_t)\<close> = 8), whatever \<open>needed\<close> is; for a capacity
  below 8 it returns 0. On a queue that is empty in the producer's view it returns exactly
  that bound. The number of items written and not yet released by the consumer, together
  with the producer's remaining allowance, never exceeds the same bound, so the queue is
  never filled beyond the capacity less one line.
\<close>

theorem blq_wspace_reserve_cap:
  assumes "blq_protocol s wb rb"
  shows "unat (fst (blq_wspace s needed)) \<le>
           unat (qlen s) - SPSCQ_CACHELINE_SIZE div sizeof_uintptr_t \<and>
         (SPSCQ_CACHELINE_SIZE div sizeof_uintptr_t \<le> unat (qlen s) \<longrightarrow>
            unat (fst (blq_wspace s needed)) + SPSCQ_CACHELINE_SIZE div sizeof_uintptr_t \<le>
              unat (qlen s)) \<and>
         (unat (qlen s) < SPSCQ_CACHELINE_SIZE div sizeof_uintptr_t \<longrightarrow>
            fst (blq_wspace s needed) = 0) \<and>
         (write_priv s = read_shadow s \<longrightarrow>
            unat (fst (blq_wspace s needed)) =
              unat (qlen s) - SPSCQ_CACHELINE_SIZE div sizeof_uintptr_t) \<and>
         unat (write_priv s - read s) + wb \<le>
           unat (qlen s) - SPSCQ_CACHELINE_SIZE div sizeof_uintptr_t"
proof -
  have k: "SPSCQ_CACHELINE_SIZE div sizeof_uintptr_t = 8"
    by (simp add: SPSCQ_CACHELINE_SIZE_def sizeof_uintptr_t_def)
  from assms have win: "blq_window s wb rb"
    by (rule blq_protocol_window)
  have cap: "unat (fst (blq_wspace s needed)) \<le> unat (qlen s) - 8"
    using blq_window_wspace [OF win] by blast
  have c2: "8 \<le> unat (qlen s) \<longrightarrow> unat (fst (blq_wspace s needed)) + 8 \<le> unat (qlen s)"
    using cap by arith
  have c3: "unat (qlen s) < 8 \<longrightarrow> fst (blq_wspace s needed) = 0"
  proof
    assume "unat (qlen s) < 8"
    with cap have "unat (fst (blq_wspace s needed)) = unat (0 :: 32 word)"
      by simp
    then show "fst (blq_wspace s needed) = 0"
      by (simp only: word_unat_eq_iff)
  qed
  have c4: "write_priv s = read_shadow s \<longrightarrow>
      unat (fst (blq_wspace s needed)) = unat (qlen s) - 8"
    using blq_window_wspace_empty [OF win] by blast
  have c5: "unat (write_priv s - read s) + wb \<le> unat (qlen s) - 8"
    using win by (rule blq_window_items)
  from cap c2 c3 c4 c5 show ?thesis
    unfolding k by blast
qed

theorem blq_wspace_reserve_cap_witness:
  "unat (fst (blq_wspace (snd (blq_init zero_Blq 16)) 3)) = 8 \<and>
   unat (fst (blq_wspace
     (blq_write_publish (blq_write_local (snd (blq_wspace (snd (blq_init zero_Blq 16)) 3)) 7))
     8)) + 8 \<le> 16"
proof -
  define s0 where "s0 = snd (blq_init zero_Blq 16)"
  define s1 where "s1 = blq_write_publish (blq_write_local (snd (blq_wspace s0 3)) 7)"
  have k: "SPSCQ_CACHELINE_SIZE div sizeof_uintptr_t = 8"
    by (simp add: SPSCQ_CACHELINE_SIZE_def sizeof_uintptr_t_def)
  have i: "blq_init zero_Blq 16 = (0, s0)"
    by (simp add: s0_def blq_init_def is_power_of_two_def)
  have f0: "qlen s0 = 16" "write_priv s0 = read_shadow s0"
    by (simp_all add: s0_def blq_init_def is_power_of_two_def zero_Blq_def)
  have p0: "blq_protocol s0 0 0"
    using i by (rule blq_protocol.init)
  have w0: "unat (fst (blq_wspace s0 3)) = 8"
    using blq_wspace_reserve_cap [OF p0, of 3] f0 by (simp add: k)
  have "blq_protocol (snd (blq_wspace s0 3)) (unat (fst (blq_wspace s0 3))) 0"
    using p0 by (rule blq_protocol.wspace)
  then have "blq_protocol (snd (blq_wspace s0 3)) (Suc 7) 0"
    using w0 by simp
  then have "blq_protocol (blq_write_local (snd (blq_wspace s0 3)) 7) 7 0"
    by (rule blq_protocol.write_local)
  then have p1: "blq_protocol s1 7 0"
    unfolding s1_def by (rule blq_protocol.write_publish)
  have f1: "qlen s1 = 16"
    by (simp add: s1_def blq_write_publish_def blq_write_local_def blq_wspace_eq f0)
  have "unat (fst (blq_wspace s1 8)) + 8 \<le> 16"
    using blq_wspace_reserve_cap [OF p1, of 8] f1 by (simp add: k)
  with w0 show ?thesis
    unfolding s0_def s1_def by simp
qed

subsection \<open>Usable capacity of the improved FastForward queue\<close>

text \<open>
  Claim C5: let \<^verbatim>\<open>iffq_init\<close> with \<^verbatim>\<open>improved = 1\<close> succeed on a queue whose slot array was
  zero-filled. Without consumer activity, the first
  \<open>entries - 2 * (line_size / sizeof(uintptr_t))\<close> calls of \<^verbatim>\<open>iffq_insert\<close> return 0, whatever
  the values, and the next call returns \<^verbatim>\<open>-ENOBUFS\<close>.
\<close>

theorem iffq_usable_capacity:
  assumes init: "iffq_init ffq0 entries line_size 1 = (0, ffq)"
    and zero: "\<forall>i<entries. Iffq.q ffq0 i = 0"
    and len: "length vs = unat entries - 2 * (unat line_size div sizeof_uintptr_t)"
  shows "fst (iffq_insert_all ffq vs) = replicate (length vs) 0 \<and>
         fst (iffq_insert (snd (iffq_insert_all ffq vs)) v) = - ENOBUFS"
proof -
  from init obtain a c where a: "a < 32" and c: "3 \<le> c" "c < 32"
    and e: "entries = 2 ^ a"
    and L: "unat line_size div sizeof_uintptr_t = 2 ^ (c - 3)"
    and em: "entry_mask ffq = mask a" and le: "line_entries ffq = 2 ^ (c - 3)"
    and pw: "prod_write ffq = 2 ^ (c - 3)" and pc: "prod_check ffq = 2 ^ (c - 3)"
    and q: "Iffq.q ffq = (\<lambda>k. if k < 2 ^ (c - 3) then 1 else Iffq.q ffq0 k)"
    using iffq_init_improved by blast
  define b where "b = c - 3"
  have b32: "b < 32"
    using c by (simp add: b_def)
  have ub: "unat (2 ^ b :: 32 word) = 2 ^ b"
    using b32 by (rule unat_exp32)
  have ue: "unat entries = 2 ^ a"
    using a e by (simp add: unat_exp32)
  have "(0 :: 32 word) < 2 ^ b"
    using ub by (simp add: word_less_nat_alt)
  then have q0: "Iffq.q ffq 0 = 1"
    using q by (simp add: b_def)
  have N: "length vs = 2 ^ a - 2 * 2 ^ b"
    using len L ue by (simp add: b_def)
  show ?thesis
  proof (cases "b + 2 \<le> a")
    case True
    have "(2::nat) ^ (b + 1) \<le> 2 ^ a"
      using True by (intro power_increasing) simp_all
    then have fits: "2 * 2 ^ b \<le> (2::nat) ^ a"
      by simp
    have start: "iffq_filled a b ffq 0"
    proof (rule iffq_filledI [where d = 0])
      show "Iffq.q ffq k = 0" if "2 ^ b + 0 \<le> unat k" "unat k < 2 ^ a" for k
      proof -
        have "\<not> k < 2 ^ b"
          using that(1) ub by (simp add: word_less_nat_alt)
        moreover have "k < entries"
          using that(2) ue by (simp add: word_less_nat_alt)
        ultimately show ?thesis
          using q zero by (simp add: b_def)
      qed
    qed (use a True em le pw pc fits ub q0 in \<open>simp_all add: b_def\<close>)
    have "0 + length vs + 2 * 2 ^ b \<le> 2 ^ a"
      using N fits by simp
    from iffq_filled_all [OF start this]
    have ok: "fst (iffq_insert_all ffq vs) = replicate (length vs) 0"
      and fin: "iffq_filled a b (snd (iffq_insert_all ffq vs)) (length vs)"
      by simp_all
    have "length vs + 2 * 2 ^ b = 2 ^ a"
      using N fits by simp
    with fin have "iffq_insert (snd (iffq_insert_all ffq vs)) v =
        (- ENOBUFS, snd (iffq_insert_all ffq vs))"
      by (rule iffq_filled_full)
    with ok show ?thesis
      by simp
  next
    case False
    then have "a \<le> b + 1"
      by simp
    then have dvd: "(2::nat) ^ a dvd 2 ^ (b + 1)"
      by (rule le_imp_power_dvd)
    then have "(2::nat) ^ a \<le> 2 ^ (b + 1)"
      by (rule dvd_imp_le) simp
    then have nil: "vs = []"
      using N by simp
    have lew: "line_entries ffq = word_of_nat (2 ^ b)"
      using le by (simp add: b_def)
    have "unat ((prod_check ffq + word_of_nat (2 ^ b)) AND mask a) =
        (unat (prod_check ffq) + 2 ^ b) mod 2 ^ a"
      using a by (rule unat_add_of_nat_mask)
    also have "unat (prod_check ffq) + 2 ^ b = 2 ^ (b + 1)"
      using pc ub by (simp add: b_def)
    also have "(2::nat) ^ (b + 1) mod 2 ^ a = 0"
      using dvd by simp
    finally have "unat ((prod_check ffq + line_entries ffq) AND entry_mask ffq) =
        unat (0 :: 32 word)"
      unfolding em lew by simp
    then have "(prod_check ffq + line_entries ffq) AND entry_mask ffq = 0"
      by (simp only: word_unat_eq_iff)
    then have blocked: "Iffq.q ffq ((prod_check ffq + line_entries ffq) AND entry_mask ffq) \<noteq> 0"
      using q0 by simp
    have "prod_write ffq = prod_check ffq"
      using pw pc by simp
    then have "iffq_insert ffq v = (- ENOBUFS, ffq)"
      using blocked by (rule iffq_insert_blocked)
    then show ?thesis
      using nil by simp
  qed
qed

theorem iffq_usable_capacity_witness:
  "fst (iffq_insert_all (snd (iffq_init zero_Iffq 32 64 1)) (replicate 16 5)) = replicate 16 0 \<and>
   fst (iffq_insert (snd (iffq_insert_all (snd (iffq_init zero_Iffq 32 64 1)) (replicate 16 5))) 5) =
     - 105"
proof -
  have "fst (iffq_init zero_Iffq 32 64 1) = 0"
    by (rule iffq_init_valid) (simp add: is_power_of_two_def sizeof_uintptr_t_def)
  then have i: "iffq_init zero_Iffq 32 64 1 = (0, snd (iffq_init zero_Iffq 32 64 1))"
    by (simp add: prod_eq_iff)
  have z: "\<forall>i<32. Iffq.q zero_Iffq i = 0"
    by (simp add: zero_Iffq_def)
  have l: "length (replicate 16 (5 :: 64 word)) =
      unat (32 :: 32 word) - 2 * (unat (64 :: 32 word) div sizeof_uintptr_t)"
    by (simp add: sizeof_uintptr_t_def)
  from iffq_usable_capacity [OF i z l, of 5] show ?thesis
    by (simp add: ENOBUFS_def)
qed

end
